theory Spec2Isabelle
  imports Complex_Main "HOL-Library.Word" "HOL-Library.Log_Nat"
begin

unbundle bit_operations_syntax

section \<open>ranks.h: strength floors and hand categories\<close>

text \<open>
  Strengths are small non-negative numbers (at most 7463), held in \<open>uint16_t\<close> and
  \<open>int\<close> variables that never overflow; they are modelled as \<open>int\<close>.
\<close>

definition HIGH_CARD_FLOOR :: int where "HIGH_CARD_FLOOR = 1"
definition ONE_PAIR_FLOOR :: int where "ONE_PAIR_FLOOR = 1278"
definition TWO_PAIR_FLOOR :: int where "TWO_PAIR_FLOOR = 4138"
definition TRIPS_FLOOR :: int where "TRIPS_FLOOR = 4996"
definition STRAIGHT_FLOOR :: int where "STRAIGHT_FLOOR = 5854"
definition FLUSH_FLOOR :: int where "FLUSH_FLOOR = 5864"
definition FULL_HOUSE_FLOOR :: int where "FULL_HOUSE_FLOOR = 7141"
definition QUADS_FLOOR :: int where "QUADS_FLOOR = 7297"
definition STRAIGHT_FLUSH_FLOOR :: int where "STRAIGHT_FLUSH_FLOOR = 7453"
definition ROYAL_FLUSH_CEILING :: int where "ROYAL_FLUSH_CEILING = 7463"

datatype hand_category_t =
  HIGH_CARD | ONE_PAIR | TWO_PAIR | TRIPS | STRAIGHT
  | FLUSH | FULL_HOUSE | QUADS | STRAIGHT_FLUSH | ROYAL_FLUSH

definition hand_category :: "int \<Rightarrow> hand_category_t" where
  "hand_category strength =
     (if strength \<ge> STRAIGHT_FLUSH_FLOOR
        then (if strength \<ge> ROYAL_FLUSH_CEILING then ROYAL_FLUSH else STRAIGHT_FLUSH)
      else if strength \<ge> QUADS_FLOOR then QUADS
      else if strength \<ge> FULL_HOUSE_FLOOR then FULL_HOUSE
      else if strength \<ge> FLUSH_FLOOR then FLUSH
      else if strength \<ge> STRAIGHT_FLOOR then STRAIGHT
      else if strength \<ge> TRIPS_FLOOR then TRIPS
      else if strength \<ge> TWO_PAIR_FLOOR then TWO_PAIR
      else if strength \<ge> ONE_PAIR_FLOOR then ONE_PAIR
      else HIGH_CARD)"

section \<open>ranks.c: scoring a 7-card rank multiset\<close>

text \<open>The table \<open>nCk[13][6]\<close>; a read outside it is undefined in C and \<open>None\<close> here.\<close>

definition nCk_table :: "int list list" where
  "nCk_table =
    [[1,0,0,0,0,0], [1,1,0,0,0,0], [1,2,1,0,0,0], [1,3,3,1,0,0], [1,4,6,4,1,0],
     [1,5,10,10,5,1], [1,6,15,20,15,6], [1,7,21,35,35,21], [1,8,28,56,70,56],
     [1,9,36,84,126,126], [1,10,45,120,210,252], [1,11,55,165,330,462],
     [1,12,66,220,495,792]]"

definition nCk :: "int \<Rightarrow> nat \<Rightarrow> int option" where
  "nCk n k = (if 0 \<le> n \<and> n < 13 \<and> k < 6 then Some (nCk_table ! nat n ! k) else None)"

text \<open>The loop header \<open>for (i = 12; i >= 0; i--)\<close>.\<close>

definition ranks_down :: "nat list" where
  "ranks_down = [12, 11, 10, 9, 8, 7, 6, 5, 4, 3, 2, 1, 0]"

text \<open>The loop header \<open>for (i = 8; i >= 0; i--)\<close> of the two straight scans.\<close>

definition shifts_down :: "nat list" where
  "shifts_down = [8, 7, 6, 5, 4, 3, 2, 1, 0]"

text \<open>
  The histogram loop: \<open>rank_counts[rank]++; rank_mask |= (1 << rank)\<close> for the seven
  entries of \<open>ranks\<close>.
\<close>

definition histogram_step :: "nat \<Rightarrow> nat list \<times> nat \<Rightarrow> nat list \<times> nat" where
  "histogram_step rank s =
     (case s of (rank_counts, rank_mask) \<Rightarrow>
        (rank_counts[rank := rank_counts ! rank + 1], rank_mask OR push_bit rank 1))"

definition histogram :: "nat list \<Rightarrow> nat list \<times> nat" where
  "histogram ranks =
     fold histogram_step (take 7 ranks) ([0, 0, 0, 0, 0, 0, 0, 0, 0, 0, 0, 0, 0], 0)"

text \<open>The group scan from the ace down; \<open>-1\<close> means "none".\<close>

definition find_groups_step :: "nat list \<Rightarrow> nat \<Rightarrow> int \<times> int \<times> int \<times> int \<Rightarrow> int \<times> int \<times> int \<times> int" where
  "find_groups_step rank_counts i g =
     (case g of (quads, trips, high_pair, low_pair) \<Rightarrow>
        if rank_counts ! i = 4 then (int i, trips, high_pair, low_pair)
        else if rank_counts ! i = 3 then
          (if trips = -1 then (quads, int i, high_pair, low_pair)
           else if high_pair = -1 then (quads, trips, int i, low_pair)
           else g)
        else if rank_counts ! i = 2 then
          (if high_pair = -1 then (quads, trips, int i, low_pair)
           else if low_pair = -1 then (quads, trips, high_pair, int i)
           else g)
        else g)"

definition find_groups :: "nat list \<Rightarrow> int \<times> int \<times> int \<times> int" where
  "find_groups rank_counts = fold (find_groups_step rank_counts) ranks_down (-1, -1, -1, -1)"

text \<open>
  The kicker scans all have the shape "from the ace down, collect the ranks that are held
  and are not a group rank, stop after \<open>n\<close> of them".
\<close>

definition held_except :: "nat list \<Rightarrow> int list \<Rightarrow> nat list" where
  "held_except rank_counts groups =
     filter (\<lambda>i. rank_counts ! i > 0 \<and> int i \<notin> set groups) ranks_down"

definition kicker_at :: "nat list \<Rightarrow> nat \<Rightarrow> int" where
  "kicker_at ks n = (if n < length ks then int (ks ! n) else -1)"

definition normalize_kicker :: "int \<Rightarrow> int \<Rightarrow> int" where
  "normalize_kicker k g = (if k > g then k - 1 else k)"

definition straight_scan :: "nat \<Rightarrow> nat option" where
  "straight_scan rank_mask = List.find (\<lambda>i. drop_bit i rank_mask AND 31 = 31) shifts_down"

definition is_wheel :: "nat \<Rightarrow> bool" where
  "is_wheel rank_mask = (rank_mask AND 4111 = 4111)"

text \<open>
  \<open>calculate_rank_strength\<close> reads \<open>ranks[0..6]\<close> and indexes \<open>rank_counts[13]\<close> with each
  of them: fewer than seven entries or a rank above 12 is an out-of-bounds access in C and
  \<open>None\<close> here, as are the reads of a kicker that was never found.
\<close>

definition calculate_rank_strength :: "nat list \<Rightarrow> int option" where
  "calculate_rank_strength ranks =
     (if length ranks < 7 \<or> (\<exists>r \<in> set (take 7 ranks). r \<ge> 13) then None else
      case histogram ranks of (rank_counts, rank_mask) \<Rightarrow>
      case find_groups rank_counts of (quads, trips, high_pair, low_pair) \<Rightarrow>
        if quads \<noteq> -1 then
          (let kicker = normalize_kicker (kicker_at (held_except rank_counts [quads]) 0) quads
           in Some (QUADS_FLOOR + quads * 12 + kicker + 1))
        else if trips \<noteq> -1 \<and> high_pair \<noteq> -1 then
          Some (FULL_HOUSE_FLOOR + trips * 12 + normalize_kicker high_pair trips + 1)
        else (case straight_scan rank_mask of
          Some i \<Rightarrow> Some (STRAIGHT_FLOOR + (int i + 2))
        | None \<Rightarrow>
          if is_wheel rank_mask then Some (STRAIGHT_FLOOR + 1)
          else if trips \<noteq> -1 then
            (let ks = held_except rank_counts [trips];
                 kicker_high = normalize_kicker (kicker_at ks 0) trips;
                 kicker_low = normalize_kicker (kicker_at ks 1) trips
             in case (nCk kicker_high 2, nCk kicker_low 1) of
                  (Some a, Some b) \<Rightarrow> Some (TRIPS_FLOOR + trips * 66 + a + b + 1)
                | _ \<Rightarrow> None)
          else if high_pair \<noteq> -1 \<and> low_pair \<noteq> -1 then
            (let kicker = normalize_kicker (normalize_kicker
                   (kicker_at (held_except rank_counts [high_pair, low_pair]) 0) high_pair) low_pair
             in case (nCk high_pair 2, nCk low_pair 1) of
                  (Some a, Some b) \<Rightarrow> Some (TWO_PAIR_FLOOR + (a + b) * 11 + kicker + 1)
                | _ \<Rightarrow> None)
          else if high_pair \<noteq> -1 then
            (let ks = map (\<lambda>i. normalize_kicker (int i) high_pair) (held_except rank_counts [high_pair])
             in if length ks < 3 then None
                else case (nCk (ks ! 0) 3, nCk (ks ! 1) 2, nCk (ks ! 2) 1) of
                  (Some a, Some b, Some c) \<Rightarrow>
                     Some (ONE_PAIR_FLOOR + high_pair * 220 + (a + b + c) + 1)
                | _ \<Rightarrow> None)
          else
            (let ks = map int (held_except rank_counts [])
             in if length ks < 5 then None
                else case (nCk (ks ! 0) 5, nCk (ks ! 1) 4, nCk (ks ! 2) 3,
                           nCk (ks ! 3) 2, nCk (ks ! 4) 1) of
                  (Some a, Some b, Some c, Some d, Some e) \<Rightarrow>
                     Some (HIGH_CARD_FLOOR + (a + b + c + d + e) + 1)
                | _ \<Rightarrow> None)))"


section \<open>ranks.c: the flush table\<close>

text \<open>
  \<open>__builtin_popcount\<close> on an \<open>unsigned int\<close>: the number of one bits, computed bit by
  bit from the lowest.
\<close>

fun popcount :: "nat \<Rightarrow> nat" where
  "popcount n = (if n = 0 then 0 else n mod 2 + popcount (n div 2))"

declare popcount.simps [simp del]

definition calculate_flush_strength_from_hand :: "nat \<Rightarrow> int \<Rightarrow> int \<times> int" where
  "calculate_flush_strength_from_hand generated normal_flush_counter =
     (if generated AND 4111 = 4111 then (STRAIGHT_FLUSH_FLOOR + 1, normal_flush_counter)
      else case List.find (\<lambda>i. drop_bit i generated AND 31 = 31) shifts_down of
        Some i \<Rightarrow> (STRAIGHT_FLUSH_FLOOR + (int i + 2), normal_flush_counter)
      | None \<Rightarrow> ((FLUSH_FLOOR + normal_flush_counter) mod 65536, normal_flush_counter + 1))"

text \<open>
  One iteration of the loop of \<open>init_flush_map\<close>; the state is the array and
  \<open>normal_flush_counter\<close>. The result of the \<open>uint16_t\<close> addition is reduced modulo
  \<open>2^16\<close>.
\<close>

definition init_flush_map_step :: "nat \<Rightarrow> int list \<times> int \<Rightarrow> int list \<times> int" where
  "init_flush_map_step i s =
     (case s of (fm, normal_flush_counter) \<Rightarrow>
        let count = popcount i in
        if count = 5 then
          (case calculate_flush_strength_from_hand i normal_flush_counter of
             (v, c) \<Rightarrow> (fm[i := v], c))
        else if count > 5 then (fm[i := fm ! (i AND (i - 1))], normal_flush_counter)
        else (fm[i := 0], normal_flush_counter))"

definition init_flush_map :: "int list \<Rightarrow> int list" where
  "init_flush_map fm = fst (fold init_flush_map_step [0..<8192] (fm, 0))"

section \<open>ranks.c: hashing, canonical form and lookup\<close>

text \<open>The three global arrays: 8192 strengths, 65536 strengths and 65536 keys.\<close>

record tables =
  flush_map :: "int list"
  rank_map :: "int list"
  rank_keys :: "64 word list"

definition SUIT_PERMUTATION :: "nat list" where
  "SUIT_PERMUTATION = [1, 0, 3, 2]"

definition get_rank_hash :: "64 word \<Rightarrow> 16 word" where
  "get_rank_hash hand =
     (let folded = (ucast (drop_bit 32 hand) :: 32 word) XOR ucast hand
      in ucast (drop_bit 16 ((ucast folded :: 64 word) * 0xE91AAA35)))"

definition ranks_up :: "nat list" where
  "ranks_up = [0, 1, 2, 3, 4, 5, 6, 7, 8, 9, 10, 11, 12]"

definition has_card :: "64 word \<Rightarrow> nat \<Rightarrow> nat \<Rightarrow> bool" where
  "has_card hand r s = ((drop_bit (16 * s) hand AND 0x1FFF) AND push_bit r 1 \<noteq> 0)"

text \<open>The first loop of \<open>canonicalize_hand\<close>: the ranks held, rank by rank, suit by suit.\<close>

definition hand_ranks :: "64 word \<Rightarrow> nat list" where
  "hand_ranks hand =
     concat (map (\<lambda>r. concat (map (\<lambda>s. if has_card hand r s then [r] else []) [0, 1, 2, 3]))
       ranks_up)"

definition canonicalize_step :: "nat \<Rightarrow> nat list \<times> 64 word \<Rightarrow> nat list \<times> 64 word" where
  "canonicalize_step rank s =
     (case s of (count, out) \<Rightarrow>
        let suit = SUIT_PERMUTATION ! (count ! rank)
        in (count[rank := count ! rank + 1], out OR push_bit (rank + 16 * suit) 1))"

text \<open>
  \<open>ranks[7]\<close> is filled by the first loop and read by the second: a hand that does not
  hold exactly seven cards overruns the array or leaves part of it uninitialised, which
  is \<open>None\<close> here.
\<close>

definition canonicalize_hand :: "64 word \<Rightarrow> 64 word option" where
  "canonicalize_hand hand =
     (let ranks = hand_ranks hand in
      if length ranks \<noteq> 7 then None
      else Some (snd (fold canonicalize_step ranks
                  ([0, 0, 0, 0, 0, 0, 0, 0, 0, 0, 0, 0, 0], 0))))"

definition get_flush_map_index :: "64 word \<Rightarrow> 16 word" where
  "get_flush_map_index hand =
     (let fc = (ucast (drop_bit 48 hand AND 0x1FFF) :: 16 word);
          fd = (ucast (drop_bit 32 hand AND 0x1FFF) :: 16 word);
          fh = (ucast (drop_bit 16 hand AND 0x1FFF) :: 16 word);
          fs = (ucast (hand AND 0x1FFF) :: 16 word)
      in if popcount (unat fc) \<ge> 5 then fc
         else if popcount (unat fd) \<ge> 5 then fd
         else if popcount (unat fh) \<ge> 5 then fh
         else if popcount (unat fs) \<ge> 5 then fs
         else 0)"

definition combine_hand_board :: "64 word \<Rightarrow> 64 word \<Rightarrow> 64 word" where
  "combine_hand_board hand board = hand OR board"

text \<open>
  The probe loop, the same in \<open>evaluate\<close> and in \<open>generate_ranks_recursive\<close>
  (\<open>idx\<close> is the source's \<open>id\<close>):
  \<open>while (rank_keys[id] != 0 && rank_keys[id] != hand) id = (id + 1) & RANK_MAP_MASK\<close>.
  It runs forever on a full table that lacks the key, so it is a partial function.
\<close>

partial_function (option) probe :: "64 word list \<Rightarrow> 64 word \<Rightarrow> 16 word \<Rightarrow> 16 word option" where
  "probe keys hand idx =
     (if keys ! unat idx \<noteq> 0 \<and> keys ! unat idx \<noteq> hand
      then probe keys hand ((idx + 1) AND 0xFFFF)
      else Some idx)"

text \<open>A table shorter than the index read from it is not a state of the program.\<close>

definition evaluate :: "tables \<Rightarrow> 64 word \<Rightarrow> 64 word \<Rightarrow> int option" where
  "evaluate T hand board =
     (let combined = combine_hand_board hand board;
          flush_id = get_flush_map_index combined
      in if flush_id \<noteq> 0 then
           (if unat flush_id < length (flush_map T) then Some (flush_map T ! unat flush_id)
            else None)
         else if length (rank_keys T) \<noteq> 65536 \<or> length (rank_map T) \<noteq> 65536 then None
         else case canonicalize_hand combined of
           None \<Rightarrow> None
         | Some canonical \<Rightarrow>
             (case probe (rank_keys T) canonical (get_rank_hash canonical) of
                None \<Rightarrow> None
              | Some idx \<Rightarrow> Some (rank_map T ! unat idx)))"

section \<open>ranks.c: building the rank map\<close>

text \<open>The leaf of the enumeration (\<open>depth == 7\<close>): probe, and store if the slot is empty.\<close>

definition insert_rank :: "64 word \<Rightarrow> nat list \<Rightarrow> tables \<Rightarrow> tables option" where
  "insert_rank current_hand current_ranks T =
     (if length (rank_keys T) \<noteq> 65536 \<or> length (rank_map T) \<noteq> 65536 then None
      else case probe (rank_keys T) current_hand (get_rank_hash current_hand) of
        None \<Rightarrow> None
      | Some idx \<Rightarrow>
          if rank_keys T ! unat idx = 0 then
            (case calculate_rank_strength current_ranks of
               None \<Rightarrow> None
             | Some v \<Rightarrow>
                 Some (T\<lparr>rank_map := (rank_map T)[unat idx := v mod 65536],
                         rank_keys := (rank_keys T)[unat idx := current_hand]\<rparr>))
          else Some T)"

text \<open>
  The state of the enumeration is the caller's array \<open>current_ranks\<close>, written in place
  at index \<open>depth\<close>, and the tables. \<open>generate_ranks_loop\<close> is the \<open>for\<close> loop of the
  function body from the value \<open>rank\<close> of its loop variable on. Beyond depth 7 the C code
  writes outside the seven-entry array; that is \<open>None\<close>.
\<close>

function generate_ranks_recursive ::
    "nat \<Rightarrow> nat \<Rightarrow> 64 word \<Rightarrow> nat list \<times> tables \<Rightarrow> (nat list \<times> tables) option"
  and generate_ranks_loop ::
    "nat \<Rightarrow> nat \<Rightarrow> 64 word \<Rightarrow> nat list \<times> tables \<Rightarrow> (nat list \<times> tables) option" where
  "generate_ranks_recursive depth start_rank current_hand st =
     (if depth = 7 then
        (case insert_rank current_hand (fst st) (snd st) of
           None \<Rightarrow> None
         | Some T \<Rightarrow> Some (fst st, T))
      else if depth > 7 \<or> length (fst st) \<noteq> 7 then None
      else generate_ranks_loop depth start_rank current_hand st)"
| "generate_ranks_loop depth rank current_hand st =
     (if rank > 12 then Some st
      else if depth \<ge> 7 then None
      else
        let count = length (filter (\<lambda>k. fst st ! k = rank) [0..<depth]) in
        if count \<ge> 4 then generate_ranks_loop depth (rank + 1) current_hand st
        else
          let new_card = push_bit (rank + 16 * SUIT_PERMUTATION ! count) (1 :: 64 word)
          in case generate_ranks_recursive (depth + 1) rank (current_hand OR new_card)
                    ((fst st)[depth := rank], snd st) of
               None \<Rightarrow> None
             | Some st' \<Rightarrow> generate_ranks_loop depth (rank + 1) current_hand st')"
  by pat_completeness auto
termination
  by (relation "measure (\<lambda>x. case x of
        Inl (depth, start_rank, current_hand, st) \<Rightarrow> (7 - depth) * 15 + 14
      | Inr (depth, rank, current_hand, st) \<Rightarrow> (7 - depth) * 15 + (13 - rank))") auto

declare generate_ranks_recursive.simps [simp del]
declare generate_ranks_loop.simps [simp del]

text \<open>
  \<open>init_rank_map\<close>: both arrays are zeroed, then the enumeration starts from the empty
  hand. The local \<open>rank_storage[7]\<close> is uninitialised, so its content is a parameter.
\<close>

definition init_rank_map :: "nat list \<Rightarrow> tables \<Rightarrow> tables option" where
  "init_rank_map rank_storage T =
     map_option snd
       (generate_ranks_recursive 0 0 0
          (rank_storage, T\<lparr>rank_map := replicate 65536 0, rank_keys := replicate 65536 0\<rparr>))"


section \<open>The CFR engine: data\<close>

text \<open>
  Amounts in big blinds, reach probabilities, regrets and strategies are \<open>double\<close> in the
  source. A finite \<open>double\<close> is modelled by the real number it denotes, and the result of
  an arithmetic operation by the rounding \<open>dbl\<close> of the exact result: IEEE 754 binary64,
  round to nearest, ties to even. A number with \<open>2^e \<le> |x| < 2^(e+1)\<close> is rounded to a
  multiple of \<open>2^(e-52)\<close>; below \<open>2^-1022\<close> (the subnormal numbers) the step stays
  \<open>2^-1074\<close>. Every operation is rounded on its own, to \<open>double\<close> precision
  (\<open>FLT_EVAL_METHOD\<close> 0, as with SSE2 arithmetic). Infinities and NaN are not values of
  the model: it covers the operations whose result stays below \<open>2^1024\<close>.

  The additions of \<open>apply_action\<close>, the halving of the starting pot in \<open>mccfr_solve\<close>
  and the product in the infoset hash are rounded in this way. The other operations on
  doubles (the differences in \<open>infoset_eq\<close>, the payoff, the sum and the quotient in
  \<open>mccfr_get_strategy\<close>) are exact: rounding is not modelled there.
\<close>

text \<open>\<open>2^e\<close> for an integer exponent.\<close>

definition pow2 :: "int \<Rightarrow> real" where
  "pow2 e = (if e \<ge> 0 then 2 ^ nat e else 1 / 2 ^ nat (- e))"

text \<open>The nearest integer, the even one of two nearest.\<close>

definition round_even :: "real \<Rightarrow> int" where
  "round_even y =
     (let n = \<lfloor>y\<rfloor>; f = y - of_int n in
      if f < 1 / 2 then n else if f > 1 / 2 then n + 1 else if even n then n else n + 1)"

text \<open>The exponent \<open>e\<close> with \<open>2^e \<le> |x| < 2^(e+1)\<close>, not below \<open>-1022\<close>.\<close>

definition binade :: "real \<Rightarrow> int" where
  "binade x =
     (let a = \<bar>x\<bar>;
          e = (if a \<ge> 1 then int (floorlog 2 (nat \<lfloor>a\<rfloor>)) - 1
               else - int (floorlog 2 (nat (\<lceil>1 / a\<rceil> - 1))))
      in max e (- 1022))"

definition dbl :: "real \<Rightarrow> real" where
  "dbl x =
     (if x = 0 then 0
      else of_int (round_even (x / pow2 (binade x - 52))) * pow2 (binade x - 52))"

definition MAX_BET_SIZES :: nat where "MAX_BET_SIZES = 4"
definition MAX_ACTIONS :: nat where "MAX_ACTIONS = 3 + 2 * MAX_BET_SIZES"
definition MAX_HISTORY :: nat where "MAX_HISTORY = 10"
definition MCCFR_HASH_CAP :: int where "MCCFR_HASH_CAP = 65536"
definition MCCFR_EPS :: real where "MCCFR_EPS = 1 / 10000000000"
definition MAX_RAISES :: nat where "MAX_RAISES = 2"
definition POT_QUANTIZE :: real where "POT_QUANTIZE = 100"

definition ACT_CHECK :: int where "ACT_CHECK = 0"
definition ACT_FOLD :: "int \<Rightarrow> int" where "ACT_FOLD sz = sz + 1"
definition ACT_CALL :: "int \<Rightarrow> int" where "ACT_CALL sz = sz + 2"
definition ACT_RAISE :: "int \<Rightarrow> int \<Rightarrow> int" where "ACT_RAISE sz i = sz + 3 + i"
definition ACT_BET :: "int \<Rightarrow> int \<Rightarrow> int" where "ACT_BET sz i = 1 + i"
definition IS_CHECK :: "int \<Rightarrow> int \<Rightarrow> bool" where "IS_CHECK a nsz = (a = 0)"
definition IS_BET :: "int \<Rightarrow> int \<Rightarrow> bool" where "IS_BET a nsz = (a \<ge> 1 \<and> a < 1 + nsz)"
definition IS_FOLD :: "int \<Rightarrow> int \<Rightarrow> bool" where "IS_FOLD a nsz = (a = 1 + nsz)"
definition IS_CALL :: "int \<Rightarrow> int \<Rightarrow> bool" where "IS_CALL a nsz = (a = 2 + nsz)"
definition IS_RAISE :: "int \<Rightarrow> int \<Rightarrow> bool" where
  "IS_RAISE a nsz = (a \<ge> 3 + nsz \<and> a < 3 + 2 * nsz)"
definition BET_INDEX :: "int \<Rightarrow> int \<Rightarrow> int" where "BET_INDEX a nsz = a - 1"
definition RAISE_INDEX :: "int \<Rightarrow> int \<Rightarrow> int" where "RAISE_INDEX a nsz = a - 3 - nsz"

datatype mccfr_street_t = STREET_FLOP | STREET_TURN | STREET_RIVER

fun street_num :: "mccfr_street_t \<Rightarrow> nat" where
  "street_num STREET_FLOP = 0"
| "street_num STREET_TURN = 1"
| "street_num STREET_RIVER = 2"

text \<open>\<open>actions\<close> is the array \<open>actions[MAX_HISTORY]\<close>, of which \<open>num_actions\<close> entries count.\<close>

record mccfr_infoset =
  board :: "64 word"
  street :: mccfr_street_t
  player :: int
  num_actions :: nat
  actions :: "int list"
  pot_bb :: real
  current_bet_bb :: real
  p0_put_bb :: real
  p1_put_bb :: real

record mccfr_data =
  regrets :: "real list"
  strategy_sum :: "real list"
  visits :: "64 word"

record mccfr_entry =
  key_hash :: "64 word"
  iset :: mccfr_infoset
  data :: mccfr_data

text \<open>The solver; its field \<open>board\<close> is \<open>solver_board\<close> here.\<close>

record mccfr_solver =
  hand_p0 :: "64 word"
  hand_p1 :: "64 word"
  solver_board :: "64 word"
  big_blind :: real
  starting_pot_bb :: real
  bet_sizes :: "real list"
  num_bet_sizes :: int
  table :: "mccfr_entry list"
  table_cap :: int
  table_size :: int

section \<open>The CFR engine: infoset hash and store\<close>

definition hash_u64 :: "64 word \<Rightarrow> 64 word \<Rightarrow> 64 word" where
  "hash_u64 a b = a XOR (b + 0x9e3779b97f4a7c15 + push_bit 6 a + drop_bit 2 a)"

text \<open>
  \<open>(uint64_t)(int)(x * POT_QUANTIZE)\<close>: the product is rounded to a \<open>double\<close>, then
  truncated towards zero and sign-extended.
\<close>

definition quantize :: "real \<Rightarrow> 64 word" where
  "quantize x =
     (let y = dbl (x * POT_QUANTIZE) in word_of_int (if y \<ge> 0 then \<lfloor>y\<rfloor> else \<lceil>y\<rceil>))"

definition mccfr_hash_infoset :: "mccfr_infoset \<Rightarrow> 64 word" where
  "mccfr_hash_infoset s =
     (let h0 = hash_u64 0 (board s);
          h1 = hash_u64 h0 (drop_bit 32 (board s));
          h2 = hash_u64 h1 (of_nat (street_num (street s)));
          h3 = hash_u64 h2 (word_of_int (player s));
          h4 = hash_u64 h3 (of_nat (num_actions s));
          h5 = fold (\<lambda>a h. hash_u64 h (word_of_int a))
                 (take (min (num_actions s) MAX_HISTORY) (actions s)) h4;
          h6 = hash_u64 h5 (quantize (pot_bb s));
          h7 = hash_u64 h6 (quantize (current_bet_bb s));
          h8 = hash_u64 h7 (quantize (p0_put_bb s))
      in hash_u64 h8 (quantize (p1_put_bb s)))"

definition infoset_eq :: "mccfr_infoset \<Rightarrow> mccfr_infoset \<Rightarrow> bool" where
  "infoset_eq a b =
     (if board a \<noteq> board b \<or> street a \<noteq> street b \<or> player a \<noteq> player b
         \<or> num_actions a \<noteq> num_actions b then False
      else if take (num_actions a) (actions a) \<noteq> take (num_actions a) (actions b) then False
      else if \<bar>pot_bb a - pot_bb b\<bar> > 1 / 1000000 then False
      else if \<bar>current_bet_bb a - current_bet_bb b\<bar> > 1 / 1000000 then False
      else if \<bar>p0_put_bb a - p0_put_bb b\<bar> > 1 / 1000000 then False
      else if \<bar>p1_put_bb a - p1_put_bb b\<bar> > 1 / 1000000 then False
      else True)"

definition zero_data :: mccfr_data where
  "zero_data = \<lparr>regrets = replicate MAX_ACTIONS 0, strategy_sum = replicate MAX_ACTIONS 0,
                 visits = 0\<rparr>"

text \<open>
  The start slot of both table walks: \<open>(int)(h & (uint64_t)mask)\<close> with
  \<open>mask = table_cap - 1\<close>.
\<close>

definition start_slot :: "mccfr_solver \<Rightarrow> 64 word \<Rightarrow> int" where
  "start_slot S h = sint (ucast (h AND word_of_int (table_cap S - 1)) :: 32 word)"

text \<open>
  The \<open>for (;;)\<close> walk of \<open>find_or_create\<close>. It returns the solver and the slot of the
  entry, or no slot (the source's \<open>NULL\<close>) once the walk is back at \<open>start\<close>. A walk that
  never returns, or that leaves the table, has no value.
\<close>

partial_function (option) find_or_create_walk ::
  "mccfr_solver \<Rightarrow> mccfr_infoset \<Rightarrow> 64 word \<Rightarrow> int \<Rightarrow> int \<Rightarrow> (mccfr_solver \<times> nat option) option" where
  "find_or_create_walk S s h start idx =
     (if idx < 0 \<or> nat idx \<ge> length (table S) then None
      else
        let e = table S ! nat idx in
        if key_hash e = 0 then
          Some (S\<lparr>table := (table S)[nat idx := \<lparr>key_hash = h, iset = s, data = zero_data\<rparr>],
                  table_size := table_size S + 1\<rparr>, Some (nat idx))
        else if key_hash e = h \<and> infoset_eq (iset e) s then Some (S, Some (nat idx))
        else
          let idx' = (idx + 1) AND (table_cap S - 1) in
          if idx' = start then Some (S, None)
          else find_or_create_walk S s h start idx')"

definition find_or_create :: "mccfr_solver \<Rightarrow> mccfr_infoset \<Rightarrow> (mccfr_solver \<times> nat option) option" where
  "find_or_create S s =
     (let h = mccfr_hash_infoset s; start = start_slot S h
      in find_or_create_walk S s h start start)"

text \<open>The walk of \<open>mccfr_get_strategy\<close>: the data found, or none.\<close>

partial_function (option) get_strategy_walk ::
  "mccfr_solver \<Rightarrow> mccfr_infoset \<Rightarrow> 64 word \<Rightarrow> int \<Rightarrow> int \<Rightarrow> mccfr_data option option" where
  "get_strategy_walk S s h start idx =
     (if idx < 0 \<or> nat idx \<ge> length (table S) then None
      else
        let e = table S ! nat idx in
        if key_hash e = 0 then Some None
        else if key_hash e = h \<and> infoset_eq (iset e) s then Some (Some (data e))
        else
          let idx' = (idx + 1) AND (table_cap S - 1) in
          if idx' = start then Some None
          else get_strategy_walk S s h start idx')"

section \<open>The CFR engine: actions, terminals and payoffs\<close>

definition facing_bet :: "mccfr_solver \<Rightarrow> mccfr_infoset \<Rightarrow> bool" where
  "facing_bet S s =
     (if num_actions s = 0 then False
      else let last_act = actions s ! (num_actions s - 1); nsz = num_bet_sizes S
           in IS_BET last_act nsz \<or> IS_RAISE last_act nsz)"

definition raise_count :: "mccfr_solver \<Rightarrow> mccfr_infoset \<Rightarrow> nat" where
  "raise_count S s =
     length (filter (\<lambda>a. IS_RAISE a (num_bet_sizes S)) (take (num_actions s) (actions s)))"

text \<open>\<open>legal_actions\<close> returns the filled prefix of \<open>out_actions\<close>.\<close>

definition legal_actions :: "mccfr_solver \<Rightarrow> mccfr_infoset \<Rightarrow> int list" where
  "legal_actions S s =
     (let nsz = num_bet_sizes S; sizes = map int [0..<nat nsz] in
      if \<not> facing_bet S s then ACT_CHECK # map (ACT_BET nsz) sizes
      else ACT_FOLD nsz # ACT_CALL nsz #
           (if raise_count S s < MAX_RAISES then map (ACT_RAISE nsz) sizes else []))"

definition is_terminal :: "mccfr_solver \<Rightarrow> mccfr_infoset \<Rightarrow> int \<Rightarrow> bool" where
  "is_terminal S s last_act =
     (let nsz = num_bet_sizes S in
      if IS_FOLD last_act nsz then True
      else if IS_CALL last_act nsz then True
      else if IS_CHECK last_act nsz \<and> num_actions s \<ge> 2
              \<and> IS_CHECK (actions s ! (num_actions s - 2)) nsz then True
      else False)"

definition payoff_showdown_bb ::
  "tables \<Rightarrow> 64 word \<Rightarrow> 64 word \<Rightarrow> 64 word \<Rightarrow> real \<Rightarrow> real \<Rightarrow> real option" where
  "payoff_showdown_bb T h0 h1 brd pot p0_put =
     (case (evaluate T h0 brd, evaluate T h1 brd) of
        (Some s0, Some s1) \<Rightarrow>
          (let winnings = (if s0 > s1 then pot else if s0 < s1 then 0 else pot * (1 / 2))
           in Some (winnings - p0_put))
      | _ \<Rightarrow> None)"

definition payoff_terminal :: "tables \<Rightarrow> mccfr_solver \<Rightarrow> mccfr_infoset \<Rightarrow> int \<Rightarrow> real option" where
  "payoff_terminal T S s last_act =
     (let nsz = num_bet_sizes S; pot = pot_bb s; p0 = p0_put_bb s in
      if IS_FOLD last_act nsz then Some (if player s = 0 then - p0 else pot - p0)
      else if IS_CALL last_act nsz then
        payoff_showdown_bb T (hand_p0 S) (hand_p1 S) (solver_board S) pot p0
      else if IS_CHECK last_act nsz \<and> street s = STREET_RIVER then
        payoff_showdown_bb T (hand_p0 S) (hand_p1 S) (solver_board S) pot p0
      else Some 0)"

text \<open>
  \<open>apply_action\<close>. A bet or raise size is read from \<open>bet_sizes[MAX_BET_SIZES]\<close>; the index
  is inside the array for every action of \<open>legal_actions\<close>. Every \<open>+\<close> of the source is
  an addition of doubles, rounded on its own: \<open>pot + bet + s\<close> is \<open>(pot + bet) + s\<close>.
\<close>

definition apply_action :: "mccfr_solver \<Rightarrow> mccfr_infoset \<Rightarrow> int \<Rightarrow> mccfr_infoset" where
  "apply_action S s a =
     (let nsz = num_bet_sizes S; pot = pot_bb s; bet = current_bet_bb s;
          p0 = p0_put_bb s; p1 = p1_put_bb s; pl = player s in
      if IS_CHECK a nsz then
        s\<lparr>current_bet_bb := bet, pot_bb := pot, p0_put_bb := p0, p1_put_bb := p1\<rparr>
      else if IS_BET a nsz then
        (let sz = bet_sizes S ! nat (BET_INDEX a nsz) in
         if pl = 0
         then s\<lparr>pot_bb := dbl (pot + sz), current_bet_bb := sz,
                 p0_put_bb := dbl (p0 + sz), p1_put_bb := p1\<rparr>
         else s\<lparr>pot_bb := dbl (pot + sz), current_bet_bb := sz,
                 p0_put_bb := p0, p1_put_bb := dbl (p1 + sz)\<rparr>)
      else if IS_FOLD a nsz then
        s\<lparr>pot_bb := pot, current_bet_bb := bet, p0_put_bb := p0, p1_put_bb := p1\<rparr>
      else if IS_CALL a nsz then
        (if pl = 0
         then s\<lparr>pot_bb := dbl (pot + bet), current_bet_bb := 0,
                 p0_put_bb := dbl (p0 + bet), p1_put_bb := p1\<rparr>
         else s\<lparr>pot_bb := dbl (pot + bet), current_bet_bb := 0,
                 p0_put_bb := p0, p1_put_bb := dbl (p1 + bet)\<rparr>)
      else if IS_RAISE a nsz then
        (let sz = bet_sizes S ! nat (RAISE_INDEX a nsz) in
         if pl = 0
         then s\<lparr>pot_bb := dbl (dbl (pot + bet) + sz), current_bet_bb := sz,
                 p0_put_bb := dbl (dbl (p0 + bet) + sz), p1_put_bb := p1\<rparr>
         else s\<lparr>pot_bb := dbl (dbl (pot + bet) + sz), current_bet_bb := sz,
                 p0_put_bb := p0, p1_put_bb := dbl (dbl (p1 + bet) + sz)\<rparr>)
      else s)"


section \<open>The CFR engine: the recursion\<close>

definition mccfr_create :: "64 word \<Rightarrow> 64 word \<Rightarrow> 64 word \<Rightarrow> mccfr_solver" where
  "mccfr_create h0 h1 brd =
     \<lparr>hand_p0 = h0, hand_p1 = h1, solver_board = brd, big_blind = 1,
      starting_pot_bb = 3 / 2, bet_sizes = [1, 0, 0, 0], num_bet_sizes = 1,
      table = replicate (nat MCCFR_HASH_CAP)
                \<lparr>key_hash = 0,
                 iset = \<lparr>board = 0, street = STREET_FLOP, player = 0, num_actions = 0,
                         actions = replicate MAX_HISTORY 0, pot_bb = 0, current_bet_bb = 0,
                         p0_put_bb = 0, p1_put_bb = 0\<rparr>,
                 data = zero_data\<rparr>,
      table_cap = MCCFR_HASH_CAP, table_size = 0\<rparr>"

text \<open>
  \<open>mccfr_set_stakes\<close>. The caller's array \<open>bet_sizes_bb\<close> is read at the indices below
  \<open>num_bet_sizes\<close>; an array shorter than that is read out of bounds, which is \<open>None\<close>.
\<close>

definition mccfr_set_stakes ::
  "mccfr_solver \<Rightarrow> real \<Rightarrow> real \<Rightarrow> real list \<Rightarrow> int \<Rightarrow> mccfr_solver option" where
  "mccfr_set_stakes S bb pot bet_sizes_bb n =
     (if n \<le> 0 \<or> n > int MAX_BET_SIZES then Some S
      else if length bet_sizes_bb < nat n then None
      else Some (S\<lparr>big_blind := (if bb > 0 then bb else 1),
                   starting_pot_bb := (if pot > 0 then pot else 3 / 2),
                   num_bet_sizes := n,
                   bet_sizes :=
                     fold (\<lambda>i bs. bs[i := (if bet_sizes_bb ! i > 0 then bet_sizes_bb ! i else 1)])
                       [0..<nat n] (bet_sizes S)\<rparr>))"

text \<open>The root infoset that \<open>mccfr_solve\<close> builds for every iteration.\<close>

definition root_infoset :: "mccfr_solver \<Rightarrow> mccfr_infoset" where
  "root_infoset S =
     \<lparr>board = solver_board S, street = STREET_FLOP, player = 0, num_actions = 0,
      actions = replicate MAX_HISTORY 0, pot_bb = starting_pot_bb S, current_bet_bb = 0,
      p0_put_bb = dbl (starting_pot_bb S * (1 / 2)),
      p1_put_bb = dbl (starting_pot_bb S * (1 / 2))\<rparr>"

text \<open>
  The infoset that \<open>cfr_recursive\<close> recurses into for a legal action other than a fold:
  the action is applied and appended, the player switches, and a second check on the flop
  or the turn opens the next street. (With ten actions in the history the append would
  write outside \<open>actions[MAX_HISTORY]\<close>; the raise cap keeps a street's history shorter.)
\<close>

definition child_infoset :: "mccfr_solver \<Rightarrow> mccfr_infoset \<Rightarrow> int \<Rightarrow> mccfr_infoset" where
  "child_infoset S s a =
     (let nsz = num_bet_sizes S;
          n0 = apply_action S s a;
          n1 = n0\<lparr>actions := (actions n0)[num_actions n0 := a],
                  num_actions := num_actions n0 + 1,
                  player := 1 - player n0\<rparr>
      in if IS_CHECK a nsz \<and> num_actions n1 \<ge> 2
            \<and> IS_CHECK (actions n1 ! (num_actions n1 - 2)) nsz then
           (if street n1 = STREET_FLOP
              then n1\<lparr>street := STREET_TURN, num_actions := 0, player := 0\<rparr>
            else if street n1 = STREET_TURN
              then n1\<lparr>street := STREET_RIVER, num_actions := 0, player := 0\<rparr>
            else n1)
         else n1)"

text \<open>The street advance inside the terminal branch of \<open>cfr_recursive\<close>.\<close>

definition advance_street :: "mccfr_infoset \<Rightarrow> mccfr_infoset" where
  "advance_street s =
     s\<lparr>street := (case street s of STREET_FLOP \<Rightarrow> STREET_TURN | _ \<Rightarrow> STREET_RIVER),
       player := 0, num_actions := 0\<rparr>"

definition advances :: "mccfr_solver \<Rightarrow> mccfr_infoset \<Rightarrow> int \<Rightarrow> bool" where
  "advances S s last_act =
     (IS_CHECK last_act (num_bet_sizes S) \<and> street s \<noteq> STREET_RIVER \<and> num_actions s \<ge> 2
      \<and> IS_CHECK (actions s ! (num_actions s - 2)) (num_bet_sizes S))"

text \<open>
  \<open>cfr_recursive\<close> from its entry to the end of its terminal branch. The outcome is the
  value returned, the infoset of the tail call after a street advance, or the slot of the
  node's data when control reaches the loop over the legal actions.
\<close>

datatype cfr_outcome = Return real | Recurse mccfr_infoset | Continue nat

definition bump_visits :: "mccfr_solver \<Rightarrow> nat \<Rightarrow> mccfr_solver" where
  "bump_visits S i =
     S\<lparr>table := (table S)[i := (table S ! i)\<lparr>data := (data (table S ! i))
                    \<lparr>visits := visits (data (table S ! i)) + 1\<rparr>\<rparr>]\<rparr>"

definition cfr_recursive_entry ::
  "tables \<Rightarrow> mccfr_solver \<Rightarrow> mccfr_infoset \<Rightarrow> real \<Rightarrow> real \<Rightarrow> int
   \<Rightarrow> (mccfr_solver \<times> cfr_outcome) option" where
  "cfr_recursive_entry T S s reach_p0 reach_p1 depth =
     (if depth > 20 then Some (S, Return 0)
      else if reach_p0 < MCCFR_EPS \<or> reach_p1 < MCCFR_EPS then Some (S, Return 0)
      else case find_or_create S s of
        None \<Rightarrow> None
      | Some (S1, None) \<Rightarrow> Some (S1, Return 0)
      | Some (S1, Some slot) \<Rightarrow>
          (let S2 = bump_visits S1 slot in
           if num_actions s > 0 \<and> is_terminal S2 s (actions s ! (num_actions s - 1)) then
             (let last_act = actions s ! (num_actions s - 1) in
              case payoff_terminal T S2 s last_act of
                None \<Rightarrow> None
              | Some pay \<Rightarrow>
                  if advances S2 s last_act then Some (S2, Recurse (advance_street s))
                  else Some (S2, Return (if player s = 0 then pay else - pay)))
           else Some (S2, Continue slot)))"

text \<open>
  The infosets that the recursion started by \<open>mccfr_solve\<close> can visit, whatever the depth
  and the reach probabilities.
\<close>

inductive reachable :: "mccfr_solver \<Rightarrow> mccfr_infoset \<Rightarrow> bool" for S where
  root: "reachable S (root_infoset S)"
| child: "reachable S s
    \<Longrightarrow> \<not> (num_actions s > 0 \<and> is_terminal S s (actions s ! (num_actions s - 1)))
    \<Longrightarrow> a \<in> set (legal_actions S s) \<Longrightarrow> \<not> IS_FOLD a (num_bet_sizes S)
    \<Longrightarrow> reachable S (child_infoset S s a)"
| advance: "reachable S s
    \<Longrightarrow> num_actions s > 0 \<Longrightarrow> is_terminal S s (actions s ! (num_actions s - 1))
    \<Longrightarrow> advances S s (actions s ! (num_actions s - 1))
    \<Longrightarrow> reachable S (advance_street s)"

definition mccfr_get_strategy :: "mccfr_solver \<Rightarrow> mccfr_infoset \<Rightarrow> real list option" where
  "mccfr_get_strategy S s =
     (let h = mccfr_hash_infoset s; start = start_slot S h in
      case get_strategy_walk S s h start start of
        None \<Rightarrow> None
      | Some None \<Rightarrow> Some (replicate MAX_ACTIONS 0)
      | Some (Some d) \<Rightarrow>
          (let sum = sum_list (take MAX_ACTIONS (strategy_sum d)) in
           if sum > 0 then Some (map (\<lambda>x. x / sum) (take MAX_ACTIONS (strategy_sum d)))
           else Some (replicate MAX_ACTIONS (1 / real MAX_ACTIONS))))"

section \<open>The range parser\<close>

text \<open>
  A \<open>HandRange\<close>: \<open>hands\<close> and \<open>hand_percentages\<close> are the first \<open>count\<close> entries of the two
  arrays of 1326 entries, in the order in which they were stored. The source's variable
  \<open>range\<close> is \<open>rng\<close> here.
\<close>

record HandRange =
  hands :: "(int \<times> int) list"
  hand_percentages :: "real list"
  count :: nat
  percentage :: real

definition RANKS :: string where
  "RANKS = ''23456789TJQKA''"

text \<open>\<open>toupper\<close> and \<open>tolower\<close> of the C locale: only the 26 ASCII letters change.\<close>

definition lower_letters :: string where
  "lower_letters = ''abcdefghijklmnopqrstuvwxyz''"

definition upper_letters :: string where
  "upper_letters = ''ABCDEFGHIJKLMNOPQRSTUVWXYZ''"

definition toupper :: "char \<Rightarrow> char" where
  "toupper c = (case map_of (zip lower_letters upper_letters) c of Some u \<Rightarrow> u | None \<Rightarrow> c)"

definition tolower :: "char \<Rightarrow> char" where
  "tolower c = (case map_of (zip upper_letters lower_letters) c of Some l \<Rightarrow> l | None \<Rightarrow> c)"

definition rank_to_idx :: "char \<Rightarrow> int" where
  "rank_to_idx rank =
     (case List.find (\<lambda>i. RANKS ! i = toupper rank) ranks_up of
        Some i \<Rightarrow> int i
      | None \<Rightarrow> -1)"

text \<open>
  The body shared by the three \<open>add_*_hands\<close> loops: store the combinations in order and
  return at the first one that finds the array full.
\<close>

fun add_hands :: "HandRange \<Rightarrow> (int \<times> int) list \<Rightarrow> real \<Rightarrow> HandRange" where
  "add_hands rng [] pct = rng"
| "add_hands rng (h # hs) pct =
     (if count rng \<ge> 1326 then rng
      else add_hands
             (rng\<lparr>hands := hands rng @ [h],
                    hand_percentages := hand_percentages rng @ [pct],
                    count := count rng + 1\<rparr>) hs pct)"

definition add_pair_hands :: "HandRange \<Rightarrow> int \<Rightarrow> real \<Rightarrow> HandRange" where
  "add_pair_hands rng rank pct =
     add_hands rng
       (concat (map (\<lambda>s1. map (\<lambda>s2. (rank * 4 + int s1, rank * 4 + int s2)) [s1 + 1..<4])
          [0, 1, 2, 3])) pct"

definition add_suited_hands :: "HandRange \<Rightarrow> int \<Rightarrow> int \<Rightarrow> real \<Rightarrow> HandRange" where
  "add_suited_hands rng r1 r2 pct =
     (if r1 = r2 then rng
      else add_hands rng (map (\<lambda>suit. (r1 * 4 + suit, r2 * 4 + suit)) [0, 1, 2, 3]) pct)"

definition add_offsuit_hands :: "HandRange \<Rightarrow> int \<Rightarrow> int \<Rightarrow> real \<Rightarrow> HandRange" where
  "add_offsuit_hands rng r1 r2 pct =
     (if r1 = r2 then rng
      else add_hands rng
             (concat (map (\<lambda>s1. map (\<lambda>s2. (r1 * 4 + s1, r2 * 4 + s2))
                                  (filter (\<lambda>s2. s1 \<noteq> s2) [0, 1, 2, 3])) [0, 1, 2, 3])) pct)"

text \<open>The two percentage formats, \<open>50%\<close> and \<open>0.5\<close>; \<open>atof\<close> is the C library's.\<close>

definition hand_pct :: "(string \<Rightarrow> real) \<Rightarrow> string \<Rightarrow> real" where
  "hand_pct atof s =
     (let pct_val = atof s in
      if pct_val > 1 \<and> pct_val \<le> 100 then pct_val / 100
      else if pct_val > 0 \<and> pct_val \<le> 1 then pct_val
      else 1)"

text \<open>
  \<open>parse_hand_spec\<close>. The copy of the specifier is cut at its first \<open>@\<close> by a NUL byte;
  the two rank characters are read from the buffer, cut or not.
\<close>

definition parse_hand_spec :: "(string \<Rightarrow> real) \<Rightarrow> HandRange \<Rightarrow> string \<Rightarrow> HandRange" where
  "parse_hand_spec atof rng spec =
     (if length spec < 2 then rng
      else
        let spec_copy = takeWhile (\<lambda>c. c \<noteq> CHR ''@'') spec;
            buffer = spec_copy @ (if length spec_copy < length spec then [CHR 0x00] else [])
                     @ drop (length spec_copy + 1) spec;
            pct = (if CHR ''@'' \<in> set spec
                   then hand_pct atof (drop (length spec_copy + 1) spec) else 1);
            r1 = rank_to_idx (buffer ! 0);
            r2 = rank_to_idx (buffer ! 1)
        in if r1 < 0 \<or> r2 < 0 then rng
           else
             let spec_len = length spec_copy;
                 is_plus = (spec_len > 2 \<and> spec_copy ! (spec_len - 1) = CHR ''+'');
                 is_suited = (spec_len > 2 \<and> tolower (spec_copy ! (spec_len - 1)) = CHR ''s'');
                 is_offsuit = (spec_len > 2 \<and> tolower (spec_copy ! (spec_len - 1)) = CHR ''o'')
             in if r1 = r2 then
                  (if is_plus
                   then fold (\<lambda>r rng. add_pair_hands rng (int r) pct) [nat r1..<13] rng
                   else add_pair_hands rng r1 pct)
                else
                  let high = (if r1 > r2 then r1 else r2);
                      low = (if r1 < r2 then r1 else r2)
                  in if is_suited then
                       (if is_plus
                        then fold (\<lambda>r rng. add_suited_hands rng high (int r) pct)
                               [0..<nat high] rng
                        else add_suited_hands rng high low pct)
                     else if is_offsuit then
                       (if is_plus
                        then fold (\<lambda>r rng. add_offsuit_hands rng high (int r) pct)
                               [0..<nat high] rng
                        else add_offsuit_hands rng high low pct)
                     else
                       (if is_plus
                        then fold (\<lambda>r rng. add_offsuit_hands
                                      (add_suited_hands rng high (int r) pct) high (int r) pct)
                               [0..<nat high] rng
                        else add_offsuit_hands
                               (add_suited_hands rng high low pct) high low pct))"

text \<open>\<open>strtok(str, ",")\<close> until it returns \<open>NULL\<close>: the maximal comma-free pieces.\<close>

fun strtok_commas :: "string \<Rightarrow> string \<Rightarrow> string list" where
  "strtok_commas [] cur = (if cur = [] then [] else [cur])"
| "strtok_commas (c # cs) cur =
     (if c = CHR '','' then (if cur = [] then [] else [cur]) @ strtok_commas cs []
      else strtok_commas cs (cur @ [c]))"

text \<open>The trimming of a token: leading spaces, then trailing ones down to its first byte.\<close>

definition trim_token :: "string \<Rightarrow> string" where
  "trim_token token =
     (let t = dropWhile (\<lambda>c. c = CHR '' '') token in
      case t of [] \<Rightarrow> [] | c # cs \<Rightarrow> c # rev (dropWhile (\<lambda>c. c = CHR '' '') (rev cs)))"

definition last_index :: "char \<Rightarrow> string \<Rightarrow> nat option" where
  "last_index c s =
     (case filter (\<lambda>i. s ! i = c) (rev [0..<length s]) of [] \<Rightarrow> None | i # _ \<Rightarrow> Some i)"

definition overall_pct :: "(string \<Rightarrow> real) \<Rightarrow> string \<Rightarrow> real" where
  "overall_pct atof s =
     (let pct = atof s in
      if pct > 1 \<and> pct \<le> 100 then pct / 100
      else if pct > 0 \<and> pct \<le> 1 then pct
      else 1)"

definition parse_range :: "(string \<Rightarrow> real) \<Rightarrow> string \<Rightarrow> HandRange" where
  "parse_range atof range_str =
     (let rng = \<lparr>hands = [], hand_percentages = [], count = 0, percentage = 1\<rparr> in
      if range_str = [] then rng
      else
        let overall =
              (case last_index (CHR ''@'') range_str of
                 None \<Rightarrow> None
               | Some last_at \<Rightarrow>
                   (let comma_before = last_index (CHR '','') range_str in
                    if (case comma_before of None \<Rightarrow> True | Some cb \<Rightarrow> cb > last_at)
                       \<and> CHR '','' \<notin> set (drop last_at range_str)
                    then Some last_at else None));
            str = (case overall of None \<Rightarrow> range_str | Some last_at \<Rightarrow> take last_at range_str);
            rng' = (case overall of
                        None \<Rightarrow> rng
                      | Some last_at \<Rightarrow>
                          rng\<lparr>percentage := overall_pct atof (drop (last_at + 1) range_str)\<rparr>)
        in fold (\<lambda>token rng. parse_hand_spec atof rng (trim_token token))
             (strtok_commas str []) rng')"


section \<open>Program states used in the examples\<close>

text \<open>The tables once \<open>init_flush_map\<close> has run on the zeroed globals.\<close>

definition flush_tables :: tables where
  "flush_tables =
     \<lparr>flush_map = init_flush_map (replicate 8192 0), rank_map = replicate 65536 0,
      rank_keys = replicate 65536 0\<rparr>"

text \<open>
  A deal for the CFR engine: player 0 holds 8s Qd, player 1 holds 7s Qc, the board is
  2s 3s 4s 6s Kh, so that player 0 wins the showdown with the higher flush. The three
  infosets are those reached from the root by a check of player 0, a bet of player 1 and
  the call of player 0; the last solver is \<open>deal_solver\<close> once \<open>cfr_recursive\<close> has
  entered the third of them.
\<close>

definition deal_solver :: mccfr_solver where
  "deal_solver = mccfr_create 0x40000000040 0x400000000000020 0x8000017"

definition after_check :: mccfr_infoset where
  "after_check = \<lparr>board = 0x8000017, street = STREET_FLOP, player = 1, num_actions = 1,
      actions = [0, 0, 0, 0, 0, 0, 0, 0, 0, 0], pot_bb = 3 / 2, current_bet_bb = 0,
      p0_put_bb = 3 / 4, p1_put_bb = 3 / 4\<rparr>"

definition after_check_bet :: mccfr_infoset where
  "after_check_bet = \<lparr>board = 0x8000017, street = STREET_FLOP, player = 0, num_actions = 2,
      actions = [0, 1, 0, 0, 0, 0, 0, 0, 0, 0], pot_bb = 5 / 2, current_bet_bb = 1,
      p0_put_bb = 3 / 4, p1_put_bb = 7 / 4\<rparr>"

definition after_check_bet_call :: mccfr_infoset where
  "after_check_bet_call = \<lparr>board = 0x8000017, street = STREET_FLOP, player = 1, num_actions = 3,
      actions = [0, 1, 3, 0, 0, 0, 0, 0, 0, 0], pot_bb = 7 / 2, current_bet_bb = 0,
      p0_put_bb = 7 / 4, p1_put_bb = 7 / 4\<rparr>"

definition call_node_entry :: mccfr_entry where
  "call_node_entry = \<lparr>key_hash = 1694072602910051026, iset = after_check_bet_call,
      data = zero_data\<lparr>visits := 1\<rparr>\<rparr>"

definition solver_after_call_node :: mccfr_solver where
  "solver_after_call_node =
     deal_solver\<lparr>table := (table deal_solver)[51922 := call_node_entry], table_size := 1\<rparr>"

text \<open>
  The same deal after a bet of player 0 and after the raise of player 1 that follows it.
\<close>

definition after_bet :: mccfr_infoset where
  "after_bet = \<lparr>board = 0x8000017, street = STREET_FLOP, player = 1, num_actions = 1,
      actions = [1, 0, 0, 0, 0, 0, 0, 0, 0, 0], pot_bb = 5 / 2, current_bet_bb = 1,
      p0_put_bb = 7 / 4, p1_put_bb = 3 / 4\<rparr>"

definition after_bet_raise :: mccfr_infoset where
  "after_bet_raise = \<lparr>board = 0x8000017, street = STREET_FLOP, player = 0, num_actions = 2,
      actions = [1, 4, 0, 0, 0, 0, 0, 0, 0, 0], pot_bb = 9 / 2, current_bet_bb = 1,
      p0_put_bb = 7 / 4, p1_put_bb = 11 / 4\<rparr>"

text \<open>
  The same deal with one bet size of 0.1 big blinds, as set by
  \<open>mccfr_set_stakes(solver, 1.0, 1.5, sizes, 1)\<close> with \<open>sizes[0] = 0.1\<close>: the literal denotes
  the double nearest to one tenth, \<open>3602879701896397 / 2^55\<close>. The two infosets are those
  reached from the root by the bet of player 0 and the call of player 1.
\<close>

definition tenth_solver :: mccfr_solver where
  "tenth_solver = deal_solver\<lparr>bet_sizes := [3602879701896397 / 36028797018963968, 0, 0, 0]\<rparr>"

definition tenth_after_bet :: mccfr_infoset where
  "tenth_after_bet = \<lparr>board = 0x8000017, street = STREET_FLOP, player = 1, num_actions = 1,
      actions = [1, 0, 0, 0, 0, 0, 0, 0, 0, 0],
      pot_bb = 3602879701896397 / 2251799813685248,
      current_bet_bb = 3602879701896397 / 36028797018963968,
      p0_put_bb = 7656119366529843 / 9007199254740992, p1_put_bb = 3 / 4\<rparr>"

definition tenth_after_bet_call :: mccfr_infoset where
  "tenth_after_bet_call = \<lparr>board = 0x8000017, street = STREET_FLOP, player = 0, num_actions = 2,
      actions = [1, 3, 0, 0, 0, 0, 0, 0, 0, 0],
      pot_bb = 1914029841632461 / 1125899906842624, current_bet_bb = 0,
      p0_put_bb = 7656119366529843 / 9007199254740992,
      p1_put_bb = 7656119366529843 / 9007199254740992\<rparr>"

section \<open>Auxiliary notions of the proofs\<close>

text \<open>What the loop has established after its first \<open>n\<close> iterations.\<close>

definition flush_inv :: "nat \<Rightarrow> int list \<times> int \<Rightarrow> bool" where
  "flush_inv n s \<longleftrightarrow>
     length (fst s) = 8192 \<and> 0 \<le> snd s \<and> snd s \<le> int n
     \<and> (\<forall>i<n. (fst s ! i \<noteq> 0) = (5 \<le> popcount i))"

text \<open>The combinations that the parser stores for one pair of ranks.\<close>

definition suited_combos :: "int \<Rightarrow> int \<Rightarrow> (int \<times> int) list" where
  "suited_combos X r = map (\<lambda>suit. (X * 4 + suit, r * 4 + suit)) [0, 1, 2, 3]"

definition offsuit_combos :: "int \<Rightarrow> int \<Rightarrow> (int \<times> int) list" where
  "offsuit_combos X r =
     concat (map (\<lambda>s1. map (\<lambda>s2. (X * 4 + s1, r * 4 + s2)) (filter (\<lambda>s2. s1 \<noteq> s2) [0, 1, 2, 3]))
       [0, 1, 2, 3])"

text \<open>
  Linear probing. A key \<open>k\<close> is stored at distance \<open>d\<close> when the walk from its hash
  meets \<open>k\<close> after \<open>d\<close> steps over slots that hold other, non-zero keys. The table
  invariant for a set \<open>K\<close> of keys: the non-zero slots hold exactly the keys of \<open>K\<close>,
  each once, and each is stored at some distance.
\<close>

definition stored_at :: "64 word list \<Rightarrow> 64 word \<Rightarrow> nat \<Rightarrow> bool" where
  "stored_at keys k d \<longleftrightarrow>
     keys ! unat (get_rank_hash k + of_nat d) = k
     \<and> (\<forall>j<d. keys ! unat (get_rank_hash k + of_nat j) \<noteq> 0
              \<and> keys ! unat (get_rank_hash k + of_nat j) \<noteq> k)"

definition probe_inv :: "64 word list \<Rightarrow> 64 word set \<Rightarrow> bool" where
  "probe_inv keys K \<longleftrightarrow>
     length keys = 65536 \<and> 0 \<notin> K
     \<and> (\<forall>i<65536. keys ! i \<noteq> 0 \<longrightarrow> keys ! i \<in> K)
     \<and> (\<forall>k\<in>K. \<exists>d. stored_at keys k d)
     \<and> (\<forall>i<65536. \<forall>j<65536. keys ! i = keys ! j \<and> keys ! i \<noteq> 0 \<longrightarrow> i = j)"

text \<open>
  The key that the second loop of \<open>canonicalize_hand\<close> builds from a list of ranks; the
  enumeration builds the same key card by card in \<open>current_hand\<close>.
\<close>

definition key_of :: "nat list \<Rightarrow> 64 word" where
  "key_of rs = snd (fold canonicalize_step rs ([0, 0, 0, 0, 0, 0, 0, 0, 0, 0, 0, 0, 0], 0))"

text \<open>
  The leaves of the enumeration in the order in which \<open>generate_ranks_recursive\<close> reaches
  them, as a list, and the insertion of a list of leaves one after the other.
\<close>

fun insert_all :: "nat list list \<Rightarrow> tables \<Rightarrow> tables option" where
  "insert_all [] T = Some T"
| "insert_all (rs # rss) T =
     (case insert_rank (key_of rs) rs T of None \<Rightarrow> None | Some T' \<Rightarrow> insert_all rss T')"

function leaves :: "nat \<Rightarrow> nat \<Rightarrow> nat list \<Rightarrow> nat list list"
  and leaves_loop :: "nat \<Rightarrow> nat \<Rightarrow> nat list \<Rightarrow> nat list list" where
  "leaves depth start_rank prefix =
     (if depth = 7 then [prefix]
      else if depth > 7 then []
      else leaves_loop depth start_rank prefix)"
| "leaves_loop depth rank prefix =
     (if rank > 12 then []
      else if depth \<ge> 7 then []
      else if count_list prefix rank \<ge> 4 then leaves_loop depth (rank + 1) prefix
      else leaves (depth + 1) rank (prefix @ [rank]) @ leaves_loop depth (rank + 1) prefix)"
  by pat_completeness auto
termination
  by (relation "measure (\<lambda>x. case x of
        Inl (depth, start_rank, prefix) \<Rightarrow> (7 - depth) * 15 + 14
      | Inr (depth, rank, prefix) \<Rightarrow> (7 - depth) * 15 + (13 - rank))") auto

declare leaves.simps [simp del]
declare leaves_loop.simps [simp del]

text \<open>
  The enumeration and the insertion of its leaves agree: both fail, or both succeed with
  the same tables, the array keeping its first \<open>depth\<close> entries.
\<close>

definition agrees ::
  "nat \<Rightarrow> nat list \<Rightarrow> (nat list \<times> tables) option \<Rightarrow> tables option \<Rightarrow> bool" where
  "agrees depth cr r x =
     (case x of
        None \<Rightarrow> r = None
      | Some T' \<Rightarrow> (\<exists>cr'. r = Some (cr', T') \<and> length cr' = 7 \<and> take depth cr' = take depth cr))"

text \<open>
  The number of ways to complete a prefix by \<open>n\<close> more ranks, none below \<open>s\<close>, when the
  prefix holds \<open>s\<close> already \<open>c\<close> times.
\<close>

primrec cnt :: "nat \<Rightarrow> nat \<Rightarrow> nat \<Rightarrow> nat" where
  "cnt 0 s c = 1"
| "cnt (Suc n) s c =
     (if s > 12 then 0
      else (if c \<ge> 4 then 0 else cnt n s (c + 1))
           + sum_list (map (\<lambda>r. cnt n r 1) (filter (\<lambda>r. s < r) ranks_up)))"

text \<open>The rank lists of seven cards: ascending, ranks below 13, no rank more than four times.\<close>

definition valid_ranks :: "nat list \<Rightarrow> bool" where
  "valid_ranks rs \<longleftrightarrow>
     length rs = 7 \<and> sorted rs \<and> (\<forall>x\<in>set rs. x < 13) \<and> (\<forall>r. count_list rs r \<le> 4)"

text \<open>What the group scan knows about the ranks \<open>S\<close> that it has visited.\<close>

definition groups_inv :: "nat list \<Rightarrow> nat set \<Rightarrow> int \<times> int \<times> int \<times> int \<Rightarrow> bool" where
  "groups_inv c S g =
     (case g of (q, t, hp, lp) \<Rightarrow>
        (q = -1 \<longrightarrow> (\<forall>i\<in>S. c ! i \<noteq> 4)) \<and>
        (t = -1 \<longrightarrow> (\<forall>i\<in>S. c ! i \<noteq> 3)) \<and>
        (t \<noteq> -1 \<longrightarrow> 0 \<le> t \<and> t < 13 \<and> c ! nat t = 3) \<and>
        (hp = -1 \<longrightarrow> (\<forall>i\<in>S. c ! i \<noteq> 2 \<and> (int i \<noteq> t \<longrightarrow> c ! i \<noteq> 3))) \<and>
        (hp \<noteq> -1 \<longrightarrow> 0 \<le> hp \<and> hp < 13 \<and> (c ! nat hp = 2 \<or> c ! nat hp = 3)) \<and>
        (lp = -1 \<and> t = -1 \<longrightarrow> (\<forall>i\<in>S. int i \<noteq> hp \<longrightarrow> c ! i \<noteq> 2)) \<and>
        (lp \<noteq> -1 \<longrightarrow> 0 \<le> lp \<and> lp < 13))"

text \<open>The canonical keys of all seven-card rank lists.\<close>

definition rank_key_set :: "64 word set" where
  "rank_key_set = key_of ` {rs. valid_ranks rs}"

text \<open>
  The amounts that \<open>apply_action\<close> adds, in order, to the pot and to the contribution of
  the player to act, and the rounded sum of a list of amounts.
\<close>

definition addends :: "mccfr_solver \<Rightarrow> mccfr_infoset \<Rightarrow> int \<Rightarrow> real list" where
  "addends S s a =
     (let nsz = num_bet_sizes S in
      if IS_CHECK a nsz then []
      else if IS_BET a nsz then [bet_sizes S ! nat (BET_INDEX a nsz)]
      else if IS_FOLD a nsz then []
      else if IS_CALL a nsz then [current_bet_bb s]
      else if IS_RAISE a nsz then [current_bet_bb s, bet_sizes S ! nat (RAISE_INDEX a nsz)]
      else [])"

definition add_all :: "real \<Rightarrow> real list \<Rightarrow> real" where
  "add_all x ys = foldl (\<lambda>x y. dbl (x + y)) x ys"

text \<open>
  Stakes on the grid of step \<open>2^-k\<close>: half the starting pot and every bet size in use is a
  natural multiple of \<open>2^-k\<close>. An infoset is on the grid when both contributions are such
  multiples and the pot is their sum.
\<close>

definition grid_stakes :: "nat \<Rightarrow> mccfr_solver \<Rightarrow> bool" where
  "grid_stakes k S \<longleftrightarrow>
     k \<le> 1074
     \<and> (\<exists>a::nat. starting_pot_bb S = real (2 * a) / 2 ^ k)
     \<and> (\<forall>i. 0 \<le> i \<and> i < num_bet_sizes S \<longrightarrow> (\<exists>b::nat. bet_sizes S ! nat i = real b / 2 ^ k))"

definition on_grid :: "nat \<Rightarrow> mccfr_infoset \<Rightarrow> bool" where
  "on_grid k s \<longleftrightarrow>
     (\<exists>n0 n1 :: nat. p0_put_bb s = real n0 / 2 ^ k \<and> p1_put_bb s = real n1 / 2 ^ k
        \<and> pot_bb s = real (n0 + n1) / 2 ^ k)"

section \<open>Evaluation helpers\<close>

lemma popcount_0 [simp]: "popcount 0 = 0"
  by (simp add: popcount.simps)

lemma popcount_double [simp]: "popcount (2 * n) = popcount n"
  by (subst popcount.simps) simp

lemma popcount_double_Suc [simp]: "popcount (Suc (2 * n)) = Suc (popcount n)"
  by (subst popcount.simps) simp

lemma popcount_numeral [simp]:
  "popcount 1 = 1" "popcount (Suc 0) = 1"
  "popcount (numeral (Num.Bit0 k)) = popcount (numeral k)"
  "popcount (numeral (Num.Bit1 k)) = Suc (popcount (numeral k))"
  "popcount (numeral Num.One) = 1"
proof -
  show "popcount 1 = 1" "popcount (Suc 0) = 1" "popcount (numeral Num.One) = 1"
    by (simp_all add: popcount.simps [of 1] popcount.simps [of "Suc 0"])
  have "numeral (Num.Bit0 k) = 2 * (numeral k :: nat)"
    by (simp add: numeral_Bit0 mult_2)
  then show "popcount (numeral (Num.Bit0 k)) = popcount (numeral k)"
    by (simp only: popcount_double)
  have "numeral (Num.Bit1 k) = Suc (2 * (numeral k :: nat))"
    by (simp add: numeral_Bit1 mult_2)
  then show "popcount (numeral (Num.Bit1 k)) = Suc (popcount (numeral k))"
    by (simp only: popcount_double_Suc)
qed

lemmas floor_defs =
  HIGH_CARD_FLOOR_def ONE_PAIR_FLOOR_def TWO_PAIR_FLOOR_def TRIPS_FLOOR_def
  STRAIGHT_FLOOR_def FLUSH_FLOOR_def FULL_HOUSE_FLOOR_def QUADS_FLOOR_def
  STRAIGHT_FLUSH_FLOOR_def ROYAL_FLUSH_CEILING_def

lemma fold_upt_numeral:
  "fold f [0..<numeral k] s = f (pred_numeral k) (fold f [0..<pred_numeral k] s)"
  by (simp add: numeral_eq_Suc)

lemma fold_upt_1: "fold f [0..<1] s = f 0 s" "fold f [0..<Suc 0] s = f 0 s"
  by simp_all


lemma drop_lowest_bit:
  "0 < n \<Longrightarrow> n AND (n - 1) < n \<and> Suc (popcount (n AND (n - 1))) = popcount n"
proof (induction n rule: less_induct)
  case (less n)
  define m where "m = n div 2"
  have rec: "n AND (n - 1) = 2 * (m AND ((n - 1) div 2))"
    using less.prems by (subst and_nat_rec) (auto simp: m_def)
  show ?case
  proof (cases "even n")
    case True
    then have n: "n = 2 * m" by (auto simp: m_def)
    with less.prems have m: "0 < m" "m < n" by auto
    have "(n - 1) div 2 = m - 1" using n m by auto
    with rec have "n AND (n - 1) = 2 * (m AND (m - 1))" by simp
    moreover from less.IH [OF m(2) m(1)]
    have "m AND (m - 1) < m" "Suc (popcount (m AND (m - 1))) = popcount m" by auto
    ultimately show ?thesis using n by simp
  next
    case False
    then have n: "n = Suc (2 * m)" by (auto simp: m_def elim: oddE)
    then have "(n - 1) div 2 = m" by simp
    with rec have "n AND (n - 1) = 2 * m" by simp
    then show ?thesis using n by simp
  qed
qed

section \<open>The flush table after \<open>init_flush_map\<close>\<close>

lemma flush_step_length [simp]:
  "length (fst (init_flush_map_step i s)) = length (fst s)"
  by (cases s) (simp add: init_flush_map_step_def Let_def split: prod.splits)

lemma flush_step_other:
  "j \<noteq> i \<Longrightarrow> fst (init_flush_map_step i s) ! j = fst s ! j"
  by (cases s) (simp add: init_flush_map_step_def Let_def split: prod.splits)

lemma flush_fold_length [simp]:
  "length (fst (fold init_flush_map_step [a..<b] s)) = length (fst s)"
  by (induction b) simp_all

lemma flush_fold_frame:
  "j < a \<Longrightarrow> fst (fold init_flush_map_step [a..<b] s) ! j = fst s ! j"
proof (induction b)
  case 0
  then show ?case by simp
next
  case (Suc b)
  show ?case
  proof (cases "a \<le> b")
    case True
    with Suc show ?thesis by (simp add: flush_step_other)
  next
    case False
    then show ?thesis by simp
  qed
qed

lemma init_flush_map_prefix:
  assumes "n \<le> 8192" and "j < n"
  shows "init_flush_map fm ! j = fst (fold init_flush_map_step [0..<n] (fm, 0)) ! j"
proof -
  have "[0..<n + (8192 - n)] = [0..<n] @ [n..<n + (8192 - n)]"
    by (rule upt_add_eq_append) simp
  with assms(1) have "[0..<8192] = [0..<n] @ [n..<8192]"
    by simp
  then show ?thesis
    using assms(2) by (simp add: init_flush_map_def flush_fold_frame)
qed

lemma length_init_flush_map [simp]: "length (init_flush_map fm) = length fm"
  by (simp add: init_flush_map_def)

lemma flush_strength_pos:
  assumes "0 \<le> c" and "c \<le> 8192"
  shows "fst (calculate_flush_strength_from_hand g c) \<noteq> 0"
    and "snd (calculate_flush_strength_from_hand g c) \<in> {c, c + 1}"
  using assms
  by (auto simp: calculate_flush_strength_from_hand_def floor_defs split: option.splits)

lemma flush_inv_step:
  assumes "flush_inv n s" and "n < 8192"
  shows "flush_inv (Suc n) (init_flush_map_step n s)"
proof -
  obtain fm c where s: "s = (fm, c)" by (cases s)
  from assms s have len: "length fm = 8192" and c: "0 \<le> c" "c \<le> int n"
    and old: "\<And>i. i < n \<Longrightarrow> (fm ! i \<noteq> 0) = (5 \<le> popcount i)"
    by (auto simp: flush_inv_def)
  from c assms(2) have c': "c \<le> 8192" by simp
  obtain v d where calc: "calculate_flush_strength_from_hand n c = (v, d)"
    by (cases "calculate_flush_strength_from_hand n c")
  with flush_strength_pos [OF c(1) c', of n] have v: "v \<noteq> 0" and d: "d = c \<or> d = c + 1"
    by auto
  have new: "(fst (init_flush_map_step n s) ! n \<noteq> 0) = (5 \<le> popcount n)"
  proof (cases "popcount n > 5")
    case True
    then have "0 < n" by (cases "n = 0") auto
    from drop_lowest_bit [OF this] True
    have "n AND (n - 1) < n" "5 \<le> popcount (n AND (n - 1))" by auto
    with old have "fm ! (n AND (n - 1)) \<noteq> 0" by simp
    with True show ?thesis
      using len assms(2) by (simp add: s init_flush_map_step_def Let_def)
  next
    case False
    then show ?thesis
      using len assms(2) v by (auto simp: s init_flush_map_step_def Let_def calc)
  qed
  have cnt: "0 \<le> snd (init_flush_map_step n s) \<and> snd (init_flush_map_step n s) \<le> int (Suc n)"
    using c d by (auto simp: s init_flush_map_step_def Let_def calc)
  have "(fst (init_flush_map_step n s) ! i \<noteq> 0) = (5 \<le> popcount i)" if "i < Suc n" for i
  proof (cases "i = n")
    case True
    with new show ?thesis by simp
  next
    case False
    with that have "i < n" by simp
    with old False show ?thesis by (simp add: flush_step_other s)
  qed
  with cnt len show ?thesis by (simp add: flush_inv_def s)
qed

lemma flush_inv_fold:
  "n \<le> 8192 \<Longrightarrow> length fm = 8192 \<Longrightarrow> flush_inv n (fold init_flush_map_step [0..<n] (fm, 0))"
proof (induction n)
  case 0
  then show ?case by (simp add: flush_inv_def)
next
  case (Suc n)
  then show ?case by (simp add: flush_inv_step)
qed

lemma init_flush_map_nonzero:
  assumes "length fm = 8192" and "i < 8192"
  shows "(init_flush_map fm ! i \<noteq> 0) = (5 \<le> popcount i)"
  using flush_inv_fold [of 8192 fm] assms by (simp add: flush_inv_def init_flush_map_def)

subsection \<open>Counting the indices by their number of bits\<close>

lemma popcount_half: "popcount n = n mod 2 + popcount (n div 2)"
  by (cases "n = 0") (simp_all add: popcount.simps [of n])

lemma card_popcount: "card {i. i < 2 ^ n \<and> popcount i = k} = n choose k"
proof (induction n arbitrary: k)
  case 0
  have "{i. i < 2 ^ 0 \<and> popcount i = k} = (if k = 0 then {0} else {})"
    by auto
  then show ?case by (cases k) simp_all
next
  case (Suc n)
  let ?A = "\<lambda>n k. {i. i < 2 ^ n \<and> popcount i = k}"
  have fin: "finite (?A n j)" for j by simp
  have split: "?A (Suc n) k =
      (\<lambda>j. 2 * j) ` ?A n k \<union> (\<lambda>j. Suc (2 * j)) ` (if k = 0 then {} else ?A n (k - 1))"
  proof (intro set_eqI iffI)
    fix i assume "i \<in> ?A (Suc n) k"
    then have i: "i < 2 * 2 ^ n" "popcount i = k" by auto
    show "i \<in> (\<lambda>j. 2 * j) ` ?A n k \<union> (\<lambda>j. Suc (2 * j)) ` (if k = 0 then {} else ?A n (k - 1))"
    proof (cases "even i")
      case True
      then obtain j where j: "i = 2 * j" by (auto elim: evenE)
      with i have "j \<in> ?A n k" by simp
      with j show ?thesis by blast
    next
      case False
      then obtain j where j: "i = Suc (2 * j)" by (auto elim: oddE)
      with i have "j < 2 ^ n" "Suc (popcount j) = k" by auto
      then have "k \<noteq> 0" "j \<in> ?A n (k - 1)" by auto
      with j show ?thesis by auto
    qed
  next
    fix i
    assume "i \<in> (\<lambda>j. 2 * j) ` ?A n k \<union> (\<lambda>j. Suc (2 * j)) ` (if k = 0 then {} else ?A n (k - 1))"
    then show "i \<in> ?A (Suc n) k" by (auto split: if_splits)
  qed
  have disj: "(\<lambda>j. 2 * j) ` ?A n k \<inter> (\<lambda>j. Suc (2 * j)) ` (if k = 0 then {} else ?A n (k - 1)) = {}"
    by (auto split: if_splits) presburger
  have c1: "card ((\<lambda>j. 2 * j) ` ?A n k) = n choose k"
    by (subst card_image) (auto simp: inj_on_def Suc.IH)
  have c2: "card ((\<lambda>j. Suc (2 * j)) ` (if k = 0 then {} else ?A n (k - 1)))
        = (if k = 0 then 0 else n choose (k - 1))"
    by (subst card_image) (auto simp: inj_on_def Suc.IH)
  have "card (?A (Suc n) k) = (n choose k) + (if k = 0 then 0 else n choose (k - 1))"
    unfolding split by (subst card_Un_disjoint) (use disj c1 c2 in \<open>auto split: if_splits\<close>)
  also have "\<dots> = Suc n choose k"
    by (cases k) simp_all
  finally show ?case .
qed


lemma card_flush_indices: "card {i. i < 8192 \<and> 5 \<le> popcount i} = 7099"
proof -
  define A where "A k = {i. i < (8192::nat) \<and> popcount i = k}" for k
  define B where "B = {i. i < (8192::nat) \<and> 5 \<le> popcount i}"
  have five: "p < 5 \<longleftrightarrow> p = 0 \<or> p = 1 \<or> p = 2 \<or> p = 3 \<or> p = 4" for p :: nat
    by arith
  have fin: "finite (A k)" for k by (simp add: A_def)
  have finB: "finite B" by (simp add: B_def)
  have disj: "j \<noteq> k \<Longrightarrow> A j \<inter> A k = {}" for j k by (auto simp: A_def)
  have disjB: "k < 5 \<Longrightarrow> A k \<inter> B = {}" for k by (auto simp: A_def B_def)
  have "(8192::nat) = 2 ^ 13" by simp
  then have cA: "card (A k) = 13 choose k" for k
    unfolding A_def by (simp only: card_popcount)
  have c: "card (A 0) = 1" "card (A 1) = 13" "card (A 2) = 78" "card (A 3) = 286"
    "card (A 4) = 715"
    unfolding cA by (simp_all add: numeral_eq_Suc)
  have u1: "card (A 0 \<union> A 1) = 14"
    using card_Un_disjoint [OF fin fin disj, of 0 1] c by simp
  have u2: "card (A 0 \<union> A 1 \<union> A 2) = 92"
    using card_Un_disjoint [of "A 0 \<union> A 1" "A 2"] fin disj [of 0 2] disj [of 1 2] c u1
    by (simp add: Int_Un_distrib2)
  have u3: "card (A 0 \<union> A 1 \<union> A 2 \<union> A 3) = 378"
    using card_Un_disjoint [of "A 0 \<union> A 1 \<union> A 2" "A 3"] fin
      disj [of 0 3] disj [of 1 3] disj [of 2 3] c u2
    by (simp add: Int_Un_distrib2)
  have u4: "card (A 0 \<union> A 1 \<union> A 2 \<union> A 3 \<union> A 4) = 1093"
    using card_Un_disjoint [of "A 0 \<union> A 1 \<union> A 2 \<union> A 3" "A 4"] fin
      disj [of 0 4] disj [of 1 4] disj [of 2 4] disj [of 3 4] c u3
    by (simp add: Int_Un_distrib2)
  have all: "{i. i < (8192::nat)} = (A 0 \<union> A 1 \<union> A 2 \<union> A 3 \<union> A 4) \<union> B"
  proof (intro set_eqI iffI)
    fix i :: nat
    assume "i \<in> {i. i < 8192}"
    then have i: "i < 8192" by simp
    show "i \<in> (A 0 \<union> A 1 \<union> A 2 \<union> A 3 \<union> A 4) \<union> B"
    proof (cases "5 \<le> popcount i")
      case True
      with i show ?thesis by (simp add: B_def)
    next
      case False
      then have "popcount i < 5" by simp
      with five [of "popcount i"] i show ?thesis by (auto simp: A_def)
    qed
  next
    fix i :: nat
    assume "i \<in> (A 0 \<union> A 1 \<union> A 2 \<union> A 3 \<union> A 4) \<union> B"
    then show "i \<in> {i. i < 8192}" by (auto simp: A_def B_def)
  qed
  have "card {i. i < (8192::nat)} = 1093 + card B"
    unfolding all
    using card_Un_disjoint [of "A 0 \<union> A 1 \<union> A 2 \<union> A 3 \<union> A 4" B] fin finB
      disjB [of 0] disjB [of 1] disjB [of 2] disjB [of 3] disjB [of 4] u4
    by (simp add: Int_Un_distrib2)
  then show ?thesis by (simp add: B_def)
qed

text \<open>
  C6. After \<open>init_flush_map\<close>, whatever the 8192 entries held before, exactly 7099 entries
  are non-zero, and an entry is non-zero exactly when its index has five or more bits set.
\<close>

theorem flush_table_density:
  assumes "length fm = 8192"
  shows "length (filter (\<lambda>v. v \<noteq> 0) (init_flush_map fm)) = 7099
       \<and> (\<forall>i<8192. (init_flush_map fm ! i \<noteq> 0) = (5 \<le> popcount i))"
proof -
  have nz: "(init_flush_map fm ! i \<noteq> 0) = (5 \<le> popcount i)" if "i < 8192" for i
    using init_flush_map_nonzero [OF assms that] .
  have "{i. i < length (init_flush_map fm) \<and> init_flush_map fm ! i \<noteq> 0}
      = {i. i < 8192 \<and> 5 \<le> popcount i}"
    using assms nz by auto
  then have "length (filter (\<lambda>v. v \<noteq> 0) (init_flush_map fm)) = 7099"
    by (simp add: length_filter_conv_card card_flush_indices)
  with nz show ?thesis by simp
qed

theorem flush_table_density_witness:
  "length (filter (\<lambda>v. v \<noteq> 0) (init_flush_map (replicate 8192 0))) = 7099
   \<and> init_flush_map (replicate 8192 0) ! 31 \<noteq> 0
   \<and> init_flush_map (replicate 8192 0) ! 30 = 0"
proof -
  have len: "length (replicate 8192 (0::int)) = 8192" by simp
  from flush_table_density [OF len]
  have n: "length (filter (\<lambda>v. v \<noteq> 0) (init_flush_map (replicate 8192 0))) = 7099"
    and a: "\<forall>i<8192. (init_flush_map (replicate 8192 0) ! i \<noteq> 0) = (5 \<le> popcount i)"
    by blast+
  from a have "(init_flush_map (replicate 8192 0) ! 31 \<noteq> 0) = (5 \<le> popcount 31)"
    and "(init_flush_map (replicate 8192 0) ! 30 \<noteq> 0) = (5 \<le> popcount 30)"
    by simp_all
  with n show ?thesis by simp
qed

section \<open>Concrete entries of the flush table and concrete evaluations\<close>

lemma flush_values:
  assumes "length fm = 8192"
  shows "init_flush_map fm ! 31 = 7455" "init_flush_map fm ! 55 = 5865"
    "init_flush_map fm ! 87 = 5869" "init_flush_map fm ! 95 = 5872"
    "init_flush_map fm ! 143 = 5882"
  using assms
  by (simp_all add: init_flush_map_prefix [of 144] fold_upt_numeral fold_upt_1
      init_flush_map_step_def calculate_flush_strength_from_hand_def shifts_down_def floor_defs)

text \<open>
  The packed cards used below: spades are bits 0 to 12, hearts bits 16 to 28, diamonds
  bits 32 to 44. \<open>0x3\<close> is 2s 3s, \<open>0x1C\<close> is 4s 5s 6s, \<open>0x800005C\<close> is 4s 5s 6s 8s Kh,
  \<open>0x50\<close> is 6s 8s, \<open>0x800000F\<close> is 2s 3s 4s 5s Kh and \<open>0x80000000080\<close> is 9s Kd.
\<close>

lemma evaluate_six_high_straight_flush_with_eight:
  assumes "flush_map T = init_flush_map fm" and "length fm = 8192"
  shows "evaluate T 0x3 0x800005C = Some 5872" and "evaluate T 0x50 0x800000F = Some 5872"
  using assms
  by (simp_all add: evaluate_def get_flush_map_index_def combine_hand_board_def flush_values)

lemma evaluate_five_card_straight_flush:
  assumes "flush_map T = init_flush_map fm" and "length fm = 8192"
  shows "evaluate T 0x3 0x1C = Some 7455"
  using assms
  by (simp add: evaluate_def get_flush_map_index_def combine_hand_board_def flush_values)

lemma evaluate_nine_high_flush:
  assumes "flush_map T = init_flush_map fm" and "length fm = 8192"
  shows "evaluate T 0x80000000080 0x800000F = Some 5882"
  using assms
  by (simp add: evaluate_def get_flush_map_index_def combine_hand_board_def flush_values)

lemma flush_tables_ok:
  "flush_map flush_tables = init_flush_map (replicate 8192 0)"
  "length (replicate 8192 (0::int)) = 8192"
  by (simp_all add: flush_tables_def)

text \<open>
  C1. On the board 2s 3s 4s 5s Kh, the hole cards 6s 8s make a six-high straight flush and
  the hole cards 9s Kd make a nine-high flush, which the straight flush beats; yet
  \<open>evaluate\<close> gives the first hand 5872 and the second 5882. (The straight flush on its own
  five cards has category \<open>STRAIGHT_FLUSH\<close>.)
\<close>

theorem straight_flush_scored_below_flush:
  assumes "flush_map T = init_flush_map fm" and "length fm = 8192"
  shows "evaluate T 0x50 0x800000F = Some 5872
       \<and> evaluate T 0x80000000080 0x800000F = Some 5882
       \<and> hand_category 5872 = FLUSH \<and> hand_category 5882 = FLUSH"
  using evaluate_six_high_straight_flush_with_eight(2) [OF assms]
    evaluate_nine_high_flush [OF assms]
  by (simp add: hand_category_def floor_defs)

theorem straight_flush_scored_below_flush_witness:
  "evaluate flush_tables 0x50 0x800000F = Some 5872
   \<and> evaluate flush_tables 0x80000000080 0x800000F = Some 5882"
  using straight_flush_scored_below_flush [OF flush_tables_ok] by simp

text \<open>
  C2. The seven cards 2s 3s 4s 5s 6s 8s Kh contain the straight flush 2s 3s 4s 5s 6s, which
  \<open>evaluate\<close> itself scores 7455 on its own; for the seven cards it returns 5872, the
  strength of the flush 8s 6s 5s 4s 3s that is left after the lowest spade is dropped.
\<close>

theorem six_card_flush_misses_straight_flush:
  assumes "flush_map T = init_flush_map fm" and "length fm = 8192"
  shows "evaluate T 0x3 0x800005C = Some 5872 \<and> evaluate T 0x3 0x1C = Some 7455
       \<and> hand_category 5872 = FLUSH \<and> hand_category 7455 = STRAIGHT_FLUSH"
  using evaluate_six_high_straight_flush_with_eight(1) [OF assms]
    evaluate_five_card_straight_flush [OF assms]
  by (simp add: hand_category_def floor_defs)

theorem six_card_flush_misses_straight_flush_witness:
  "evaluate flush_tables 0x3 0x800005C = Some 5872
   \<and> evaluate flush_tables 0x3 0x1C = Some 7455"
  using six_card_flush_misses_straight_flush [OF flush_tables_ok] by simp

section \<open>Scores of rank multisets\<close>

lemma histogram_AKQJ987: "histogram [5, 6, 7, 9, 10, 11, 12] = ([0,0,0,0,0,1,1,1,0,1,1,1,1], 7904)"
  by (simp add: histogram_def histogram_step_def)

lemma groups_AKQJ987: "find_groups [0,0,0,0,0,1,1,1,0,1,1,1,1] = (-1, -1, -1, -1)"
  by (simp add: find_groups_def find_groups_step_def ranks_down_def)

lemma straight_AKQJ987: "straight_scan 7904 = None"
  by (simp add: straight_scan_def shifts_down_def)

lemma held_AKQJ987: "held_except [0,0,0,0,0,1,1,1,0,1,1,1,1] [] = [12, 11, 10, 9, 7, 6, 5]"
  by (simp add: held_except_def ranks_down_def)

lemma strength_AKQJ987: "calculate_rank_strength [5, 6, 7, 9, 10, 11, 12] = Some 1287"
  unfolding calculate_rank_strength_def histogram_AKQJ987 prod.case groups_AKQJ987
    straight_AKQJ987 held_AKQJ987
  by (simp add: is_wheel_def nCk_def nCk_table_def floor_defs)

lemma histogram_AAKQJ98: "histogram [6, 7, 9, 10, 11, 12, 12] = ([0,0,0,0,0,0,1,1,0,1,1,1,2], 7872)"
  by (simp add: histogram_def histogram_step_def)

lemma groups_AAKQJ98: "find_groups [0,0,0,0,0,0,1,1,0,1,1,1,2] = (-1, -1, 12, -1)"
  by (simp add: find_groups_def find_groups_step_def ranks_down_def)

lemma straight_AAKQJ98: "straight_scan 7872 = None"
  by (simp add: straight_scan_def shifts_down_def)

lemma held_AAKQJ98: "held_except [0,0,0,0,0,0,1,1,0,1,1,1,2] [12] = [11, 10, 9, 7, 6]"
  by (simp add: held_except_def ranks_down_def)

lemma strength_AAKQJ98: "calculate_rank_strength [6, 7, 9, 10, 11, 12, 12] = Some 4138"
  unfolding calculate_rank_strength_def histogram_AAKQJ98 prod.case groups_AAKQJ98
    straight_AAKQJ98 held_AAKQJ98
  by (simp add: is_wheel_def nCk_def nCk_table_def floor_defs normalize_kicker_def)

lemma groups_of_AKQJ987:
  "find_groups (fst (histogram [5, 6, 7, 9, 10, 11, 12])) = (-1, -1, -1, -1)"
  unfolding histogram_AKQJ987 fst_conv by (rule groups_AKQJ987)

lemma groups_of_AAKQJ98:
  "find_groups (fst (histogram [6, 7, 9, 10, 11, 12, 12])) = (-1, -1, 12, -1)"
  unfolding histogram_AAKQJ98 fst_conv by (rule groups_AAKQJ98)

text \<open>
  C3. The ranks 7 8 9 J Q K A (no rank twice, no straight: a high-card hand) score 1287,
  which is not below \<open>ONE_PAIR_FLOOR\<close> and which \<open>hand_category\<close> reads as a pair; the ranks
  8 9 J Q K A A (one pair of aces) score 4138, which is \<open>TWO_PAIR_FLOOR\<close> itself and which
  \<open>hand_category\<close> reads as two pair.
\<close>

theorem strength_outside_category_interval:
  "calculate_rank_strength [5, 6, 7, 9, 10, 11, 12] = Some 1287
   \<and> find_groups (fst (histogram [5, 6, 7, 9, 10, 11, 12])) = (-1, -1, -1, -1)
   \<and> ONE_PAIR_FLOOR \<le> 1287 \<and> hand_category 1287 = ONE_PAIR
   \<and> calculate_rank_strength [6, 7, 9, 10, 11, 12, 12] = Some 4138
   \<and> find_groups (fst (histogram [6, 7, 9, 10, 11, 12, 12])) = (-1, -1, 12, -1)
   \<and> TWO_PAIR_FLOOR \<le> 4138 \<and> hand_category 4138 = TWO_PAIR"
  by (simp add: strength_AKQJ987 strength_AAKQJ98 groups_of_AKQJ987 groups_of_AAKQJ98
      hand_category_def floor_defs)


section \<open>The CFR engine on a concrete deal\<close>

text \<open>The amounts of the deal are doubles: rounding leaves them as they are.\<close>

lemma dbl_deal_values:
  "dbl (3 / 4) = 3 / 4" "dbl (5 / 2) = 5 / 2" "dbl (7 / 4) = 7 / 4" "dbl (7 / 2) = 7 / 2"
  "dbl 150 = 150" "dbl 175 = 175" "dbl 350 = 350"
  apply (simp_all add: dbl_def binade_def)
  apply (simp_all add: compute_floorlog pow2_def round_even_def)
  done

lemma dbl_zero [simp]: "dbl 0 = 0"
  by (simp add: dbl_def)

lemmas action_defs = IS_CHECK_def IS_BET_def IS_FOLD_def IS_CALL_def IS_RAISE_def
  ACT_CHECK_def ACT_BET_def ACT_FOLD_def ACT_CALL_def ACT_RAISE_def BET_INDEX_def RAISE_INDEX_def

lemma replicate_history: "replicate MAX_HISTORY (0::int) = [0, 0, 0, 0, 0, 0, 0, 0, 0, 0]"
  by (simp add: MAX_HISTORY_def numeral_eq_Suc)

lemma deal_solver_simps:
  "num_bet_sizes deal_solver = 1" "bet_sizes deal_solver = [1, 0, 0, 0]"
  "starting_pot_bb deal_solver = 3 / 2" "solver_board deal_solver = 0x8000017"
  "table_cap deal_solver = 65536" "hand_p0 deal_solver = 0x40000000040"
  "hand_p1 deal_solver = 0x400000000000020" "table_size deal_solver = 0"
  "length (table deal_solver) = 65536"
  "i < 65536 \<Longrightarrow> key_hash (table deal_solver ! i) = 0"
  by (simp_all add: deal_solver_def mccfr_create_def MCCFR_HASH_CAP_def)

lemma deal_root:
  "root_infoset deal_solver = \<lparr>board = 0x8000017, street = STREET_FLOP, player = 0,
      num_actions = 0, actions = [0, 0, 0, 0, 0, 0, 0, 0, 0, 0], pot_bb = 3 / 2,
      current_bet_bb = 0, p0_put_bb = 3 / 4, p1_put_bb = 3 / 4\<rparr>"
  by (simp add: root_infoset_def deal_solver_simps replicate_history dbl_deal_values)

lemma deal_children:
  "child_infoset deal_solver (root_infoset deal_solver) 0 = after_check"
  "child_infoset deal_solver after_check 1 = after_check_bet"
  "child_infoset deal_solver after_check_bet 3 = after_check_bet_call"
  unfolding deal_root
  by (simp_all add: after_check_def after_check_bet_def after_check_bet_call_def
      child_infoset_def apply_action_def deal_solver_simps action_defs Let_def dbl_deal_values)

lemma deal_reachable: "reachable deal_solver after_check_bet_call"
proof -
  have "reachable deal_solver (child_infoset deal_solver (root_infoset deal_solver) 0)"
    by (rule reachable.child [OF reachable.root])
       (simp_all add: deal_root legal_actions_def facing_bet_def deal_solver_simps action_defs)
  then have "reachable deal_solver after_check"
    by (simp only: deal_children)
  then have "reachable deal_solver (child_infoset deal_solver after_check 1)"
    by (rule reachable.child)
       (simp_all add: after_check_def legal_actions_def facing_bet_def is_terminal_def
         deal_solver_simps action_defs)
  then have "reachable deal_solver after_check_bet"
    by (simp only: deal_children)
  then have "reachable deal_solver (child_infoset deal_solver after_check_bet 3)"
    by (rule reachable.child)
       (simp_all add: after_check_bet_def legal_actions_def facing_bet_def is_terminal_def
         raise_count_def MAX_RAISES_def deal_solver_simps action_defs)
  then show ?thesis
    by (simp only: deal_children)
qed

lemma call_node_hash: "mccfr_hash_infoset after_check_bet_call = 1694072602910051026"
  apply (simp add: after_check_bet_call_def mccfr_hash_infoset_def quantize_def POT_QUANTIZE_def
      MAX_HISTORY_def Let_def dbl_deal_values)
  apply (simp add: hash_u64_def)
  done

lemma call_node_slot: "start_slot deal_solver 1694072602910051026 = 51922"
  by (simp add: start_slot_def deal_solver_simps)

lemma call_node_eq: "infoset_eq after_check_bet_call after_check_bet_call"
  by (simp add: infoset_eq_def)

lemma call_node_find_or_create:
  "find_or_create deal_solver after_check_bet_call =
     Some (deal_solver\<lparr>table := (table deal_solver)[51922 :=
              \<lparr>key_hash = 1694072602910051026, iset = after_check_bet_call, data = zero_data\<rparr>],
            table_size := 1\<rparr>, Some 51922)"
  unfolding find_or_create_def call_node_hash Let_def call_node_slot
  by (subst find_or_create_walk.simps) (simp add: deal_solver_simps)


lemma deal_evaluate:
  assumes "flush_map T = init_flush_map fm" and "length fm = 8192"
  shows "evaluate T 0x40000000040 0x8000017 = Some 5869"
    and "evaluate T 0x400000000000020 0x8000017 = Some 5865"
  using assms
  by (simp_all add: evaluate_def get_flush_map_index_def combine_hand_board_def flush_values)

lemma deal_showdown:
  assumes "flush_map T = init_flush_map fm" and "length fm = 8192"
  shows "payoff_showdown_bb T 0x40000000040 0x400000000000020 0x8000017 (7 / 2) (7 / 4)
       = Some (7 / 4)"
  by (simp add: payoff_showdown_bb_def deal_evaluate [OF assms])

lemma call_node_terminal:
  "is_terminal S after_check_bet_call 3 = (num_bet_sizes S = 1 \<or> num_bet_sizes S = 2)"
  by (auto simp: is_terminal_def after_check_bet_call_def action_defs)

lemma call_node_recursive_entry:
  assumes "flush_map T = init_flush_map fm" and "length fm = 8192"
  shows "cfr_recursive_entry T deal_solver after_check_bet_call 1 1 3
       = Some (solver_after_call_node, Return (- (7 / 4)))"
proof -
  let ?S1 = "deal_solver\<lparr>table := (table deal_solver)[51922 :=
              \<lparr>key_hash = 1694072602910051026, iset = after_check_bet_call, data = zero_data\<rparr>],
            table_size := 1\<rparr>"
  have "visits zero_data + 1 = 1"
    by (simp add: zero_data_def)
  then have b: "bump_visits ?S1 51922 = solver_after_call_node"
    by (simp add: bump_visits_def solver_after_call_node_def call_node_entry_def
        deal_solver_simps)
  have n: "num_bet_sizes solver_after_call_node = 1" "hand_p0 solver_after_call_node = 0x40000000040"
    "hand_p1 solver_after_call_node = 0x400000000000020"
    "solver_board solver_after_call_node = 0x8000017"
    by (simp_all add: solver_after_call_node_def deal_solver_simps)
  have node: "num_actions after_check_bet_call = 3" "actions after_check_bet_call ! 2 = 3"
    "player after_check_bet_call = 1" "pot_bb after_check_bet_call = 7 / 2"
    "p0_put_bb after_check_bet_call = 7 / 4"
    by (simp_all add: after_check_bet_call_def)
  have pay: "payoff_terminal T solver_after_call_node after_check_bet_call 3 = Some (7 / 4)"
    by (simp add: payoff_terminal_def n node action_defs deal_showdown [OF assms])
  have adv: "\<not> advances solver_after_call_node after_check_bet_call 3"
    by (simp add: advances_def action_defs)
  show ?thesis
    unfolding cfr_recursive_entry_def call_node_find_or_create
    by (simp add: MCCFR_EPS_def b node call_node_terminal n pay adv)
qed

lemma call_node_lookup:
  "get_strategy_walk solver_after_call_node after_check_bet_call 1694072602910051026 51922 51922
     = Some (Some (zero_data\<lparr>visits := 1\<rparr>))"
  by (subst get_strategy_walk.simps)
     (simp add: solver_after_call_node_def call_node_entry_def deal_solver_simps call_node_eq)

lemma call_node_strategy:
  "mccfr_get_strategy solver_after_call_node after_check_bet_call
     = Some (replicate 11 (1 / 11))"
proof -
  have "start_slot solver_after_call_node 1694072602910051026 = 51922"
    by (simp add: start_slot_def solver_after_call_node_def deal_solver_simps)
  then show ?thesis
    unfolding mccfr_get_strategy_def call_node_hash Let_def
    by (simp add: call_node_lookup zero_data_def MAX_ACTIONS_def MAX_BET_SIZES_def
        sum_list_replicate)
qed

lemma call_node_legal:
  "legal_actions solver_after_call_node after_check_bet_call = [0, 1]"
  by (simp add: legal_actions_def facing_bet_def after_check_bet_call_def
      solver_after_call_node_def deal_solver_simps action_defs)


text \<open>
  C7. After a check of player 0, a bet of player 1 and the call of player 0, the node is
  a showdown terminal with player 1 to act. Player 0 wins the showdown and the profit
  of player 0 is \<open>pot_bb - p0_put_bb = 7/4\<close>, yet \<open>cfr_recursive\<close> returns \<open>-7/4\<close>.
\<close>

theorem call_terminal_returns_negated_profit:
  "map_option snd (cfr_recursive_entry flush_tables deal_solver after_check_bet_call 1 1 3)
     = Some (Return (- (7 / 4)))
   \<and> payoff_showdown_bb flush_tables (hand_p0 deal_solver) (hand_p1 deal_solver)
        (solver_board deal_solver) (pot_bb after_check_bet_call)
        (p0_put_bb after_check_bet_call) = Some (7 / 4)
   \<and> reachable deal_solver after_check_bet_call
   \<and> player after_check_bet_call = 1"
  using call_node_recursive_entry [OF flush_tables_ok] deal_showdown [OF flush_tables_ok]
    deal_reachable
  by (simp add: deal_solver_simps after_check_bet_call_def)

text \<open>
  C9. The same terminal infoset is stored by \<open>cfr_recursive\<close> with a zero strategy sum.
  Its legal actions are CHECK and BET (0 and 1), but \<open>mccfr_get_strategy\<close> returns 1/11
  in each of the eleven action slots: the illegal actions carry probability 1/11 and the
  legal ones sum to 2/11.
\<close>

theorem zero_sum_strategy_spread_over_all_slots:
  "map_option fst (cfr_recursive_entry flush_tables deal_solver after_check_bet_call 1 1 3)
     = Some solver_after_call_node
   \<and> mccfr_get_strategy solver_after_call_node after_check_bet_call
       = Some (replicate 11 (1 / 11))
   \<and> legal_actions solver_after_call_node after_check_bet_call = [0, 1]"
  using call_node_recursive_entry [OF flush_tables_ok] call_node_strategy call_node_legal
  by simp

section \<open>Rounding to a double\<close>

lemma pow2_powr: "pow2 e = 2 powr (real_of_int e)"
proof (cases "e \<ge> 0")
  case True
  then have "real_of_int e = real (nat e)" by simp
  then have "2 powr (real_of_int e) = (2::real) ^ nat e"
    by (simp only: powr_realpow [of 2 "nat e", simplified])
  with True show ?thesis by (simp add: pow2_def)
next
  case False
  then have "real_of_int e = - real (nat (- e))" by simp
  then have "2 powr (real_of_int e) = 1 / (2::real) ^ nat (- e)"
    by (simp only: powr_minus_divide powr_realpow [of 2 "nat (- e)", simplified])
  with False show ?thesis by (simp add: pow2_def)
qed

lemma pow2_pos [simp]: "0 < pow2 e"
  by (simp add: pow2_powr)

lemma pow2_nonzero [simp]: "pow2 e \<noteq> 0"
  using pow2_pos [of e] by linarith

lemma pow2_add: "pow2 (a + b) = pow2 a * pow2 b"
  by (simp add: pow2_powr powr_add)

lemma pow2_diff: "pow2 (a - b) = pow2 a / pow2 b"
  by (simp add: pow2_powr powr_diff)

lemma pow2_less [simp]: "pow2 a < pow2 b \<longleftrightarrow> a < b"
  by (simp add: pow2_powr)

lemma pow2_le [simp]: "pow2 a \<le> pow2 b \<longleftrightarrow> a \<le> b"
  by (simp add: pow2_powr)

lemma pow2_nat: "pow2 (int n) = 2 ^ n"
  by (simp add: pow2_def)

lemma pow2_neg_nat: "pow2 (- int n) = 1 / 2 ^ n"
  by (simp add: pow2_powr powr_minus_divide powr_realpow)

lemma binade_cases:
  assumes "x \<noteq> 0"
  shows "(pow2 (binade x) \<le> \<bar>x\<bar> \<and> \<bar>x\<bar> < pow2 (binade x + 1))
       \<or> (binade x = - 1022 \<and> \<bar>x\<bar> < pow2 (- 1022))"
proof -
  define a where "a = \<bar>x\<bar>"
  define e where "e = (if a \<ge> 1 then int (floorlog 2 (nat \<lfloor>a\<rfloor>)) - 1
               else - int (floorlog 2 (nat (\<lceil>1 / a\<rceil> - 1))))"
  have b: "binade x = max e (- 1022)"
    by (simp add: binade_def e_def a_def Let_def)
  from assms have a: "0 < a" by (simp add: a_def)
  have bounds: "pow2 e \<le> a \<and> a < pow2 (e + 1)"
  proof (cases "a \<ge> 1")
    case True
    define n where "n = nat \<lfloor>a\<rfloor>"
    from True have n: "0 < n" by (simp add: n_def)
    have na: "real n \<le> a" "a < real n + 1"
      using True by (simp_all add: n_def)
    from floorlog_bounds [of n 2] n
    have fl: "2 ^ (floorlog 2 n - 1) \<le> n" "n < 2 ^ floorlog 2 n" by simp_all
    from fl(2) n have pos: "0 < floorlog 2 n"
      by (cases "floorlog 2 n") simp_all
    from True have e: "e = int (floorlog 2 n - 1)" "e + 1 = int (floorlog 2 n)"
      using pos by (simp_all add: e_def n_def)
    have "real (2 ^ (floorlog 2 n - 1)) \<le> real n" using fl(1) by (simp only: of_nat_le_iff)
    then have "(2::real) ^ (floorlog 2 n - 1) \<le> real n" by simp
    with na(1) have "(2::real) ^ (floorlog 2 n - 1) \<le> a" by linarith
    then have lo: "pow2 e \<le> a" by (simp only: e(1) pow2_nat)
    from fl(2) have "n + 1 \<le> 2 ^ floorlog 2 n" by simp
    then have "real (n + 1) \<le> real (2 ^ floorlog 2 n)" by (simp only: of_nat_le_iff)
    then have "real n + 1 \<le> (2::real) ^ floorlog 2 n" by simp
    with na(2) have "a < (2::real) ^ floorlog 2 n" by linarith
    then have "a < pow2 (e + 1)" by (simp only: e(2) pow2_nat)
    with lo show ?thesis by simp
  next
    case False
    with a have inv: "1 < 1 / a" by simp
    define m where "m = nat (\<lceil>1 / a\<rceil> - 1)"
    from inv have c2: "2 \<le> \<lceil>1 / a\<rceil>" by linarith
    then have m: "0 < m" by (simp add: m_def)
    have ma: "real m < 1 / a" "1 / a \<le> real m + 1"
      using c2 by (simp_all add: m_def) linarith+
    from floorlog_bounds [of m 2] m
    have fl: "2 ^ (floorlog 2 m - 1) \<le> m" "m < 2 ^ floorlog 2 m" by simp_all
    from fl(2) m have pos: "0 < floorlog 2 m"
      by (cases "floorlog 2 m") simp_all
    from False have e: "e = - int (floorlog 2 m)" "e + 1 = - int (floorlog 2 m - 1)"
      using pos by (simp_all add: e_def m_def)
    from fl(2) have "m + 1 \<le> 2 ^ floorlog 2 m" by simp
    then have "real (m + 1) \<le> real (2 ^ floorlog 2 m)" by (simp only: of_nat_le_iff)
    then have "real m + 1 \<le> (2::real) ^ floorlog 2 m" by simp
    with ma(2) have "1 / a \<le> 2 ^ floorlog 2 m" by linarith
    with a have "1 / 2 ^ floorlog 2 m \<le> a"
      by (simp add: field_simps)
    then have lo: "pow2 e \<le> a" by (simp only: e(1) pow2_neg_nat)
    have "real (2 ^ (floorlog 2 m - 1)) \<le> real m" using fl(1) by (simp only: of_nat_le_iff)
    then have "(2::real) ^ (floorlog 2 m - 1) \<le> real m" by simp
    with ma(1) have "2 ^ (floorlog 2 m - 1) < 1 / a" by linarith
    with a have "a < 1 / 2 ^ (floorlog 2 m - 1)"
      by (simp add: field_simps)
    then have "a < pow2 (e + 1)" by (simp only: e(2) pow2_neg_nat)
    with lo show ?thesis by simp
  qed
  show ?thesis
  proof (cases "e \<ge> - 1022")
    case True
    then have "binade x = e" by (simp add: b)
    with bounds show ?thesis by (simp add: a_def)
  next
    case False
    then have be: "binade x = - 1022" by (simp add: b)
    from False have "e + 1 \<le> - 1022" by simp
    then have "pow2 (e + 1) \<le> pow2 (- 1022)" by (simp only: pow2_le)
    moreover from bounds have "a < pow2 (e + 1)" by (rule conjunct2)
    ultimately have "a < pow2 (- 1022)" by linarith
    with be show ?thesis by (simp add: a_def)
  qed
qed

lemma binade_ge:
  assumes "pow2 j \<le> \<bar>x\<bar>" "- 1022 \<le> j"
  shows "j \<le> binade x" "pow2 (binade x) \<le> \<bar>x\<bar>"
proof -
  have "0 < \<bar>x\<bar>" using assms(1) pow2_pos [of j] by linarith
  then have x: "x \<noteq> 0" by simp
  from assms(2) have "pow2 (- 1022) \<le> pow2 j" by (simp only: pow2_le)
  with assms(1) have "\<not> \<bar>x\<bar> < pow2 (- 1022)" by linarith
  with binade_cases [OF x] have c: "pow2 (binade x) \<le> \<bar>x\<bar>" "\<bar>x\<bar> < pow2 (binade x + 1)"
    by blast+
  from c(2) assms(1) have "pow2 j < pow2 (binade x + 1)" by linarith
  then show "j \<le> binade x" by simp
  from c(1) show "pow2 (binade x) \<le> \<bar>x\<bar>" .
qed

lemma binade_le:
  assumes "x \<noteq> 0" "\<bar>x\<bar> < pow2 (j + 1)" "- 1022 \<le> j"
  shows "binade x \<le> j"
proof -
  from binade_cases [OF assms(1)] show ?thesis
  proof
    assume "pow2 (binade x) \<le> \<bar>x\<bar> \<and> \<bar>x\<bar> < pow2 (binade x + 1)"
    with assms(2) have "pow2 (binade x) < pow2 (j + 1)" by linarith
    then show ?thesis by simp
  next
    assume "binade x = - 1022 \<and> \<bar>x\<bar> < pow2 (- 1022)"
    with assms(3) show ?thesis by simp
  qed
qed

lemma binade_min: "- 1022 \<le> binade x"
  by (simp add: binade_def Let_def)

lemma round_even_int [simp]: "round_even (of_int n) = n"
  by (simp add: round_even_def)

lemma round_even_floor: "\<lfloor>y\<rfloor> \<le> round_even y"
  by (simp add: round_even_def Let_def)

lemma dbl_grid:
  assumes "k \<le> 1074" "n < 2 ^ 53"
  shows "dbl (real n / 2 ^ k) = real n / 2 ^ k"
proof (cases "n = 0")
  case True
  then show ?thesis by (simp add: dbl_def)
next
  case False
  define x where "x = real n / 2 ^ k"
  have xp: "x = real n * pow2 (- int k)"
    by (simp add: x_def pow2_neg_nat)
  from False have x0: "0 < x" by (simp add: x_def)
  have "real n < 2 ^ 53" using assms(2) by (simp only: of_nat_less_iff [symmetric, where ?'a = real]) simp
  then have "x < pow2 53 * pow2 (- int k)"
    unfolding xp by (simp add: pow2_nat [of 53, simplified])
  then have "\<bar>x\<bar> < pow2 ((52 - int k) + 1)"
    using x0 by (simp add: pow2_add [symmetric])
  moreover have "- 1022 \<le> 52 - int k" using assms(1) by simp
  ultimately have e: "binade x \<le> 52 - int k"
    using x0 by (intro binade_le) simp_all
  define d where "d = nat (52 - int k - binade x)"
  from e have d: "int d = 52 - int k - binade x" by (simp add: d_def)
  have "x / pow2 (binade x - 52) = real n * pow2 (- int k - (binade x - 52))"
    unfolding xp by (simp add: pow2_diff)
  also have "- int k - (binade x - 52) = int d" using d by simp
  also have "real n * pow2 (int d) = of_int (int n * 2 ^ d)"
    by (simp add: pow2_nat)
  finally have q: "x / pow2 (binade x - 52) = of_int (int n * 2 ^ d)" .
  have "dbl x = of_int (round_even (x / pow2 (binade x - 52))) * pow2 (binade x - 52)"
    using x0 by (simp add: dbl_def)
  also have "\<dots> = of_int (int n * 2 ^ d) * pow2 (binade x - 52)"
    unfolding q by (simp only: round_even_int)
  also have "\<dots> = x / pow2 (binade x - 52) * pow2 (binade x - 52)"
    by (simp only: q)
  also have "\<dots> = x" by simp
  finally show ?thesis by (simp only: x_def)
qed

lemma dbl_ge:
  assumes "k \<le> 1074" "2 ^ 53 / 2 ^ k \<le> x"
  shows "2 ^ 53 / 2 ^ k \<le> dbl x"
proof -
  define j where "j = 53 - int k"
  have pj: "pow2 j = 2 ^ 53 / 2 ^ k"
    by (simp add: j_def pow2_diff pow2_nat [of 53, simplified] pow2_nat [of k])
  from assms(2) have xj: "pow2 j \<le> x" by (simp only: pj)
  then have x0: "0 < x" using pow2_pos [of j] by linarith
  then have ax: "\<bar>x\<bar> = x" by simp
  have j: "- 1022 \<le> j" using assms(1) by (simp add: j_def)
  from binade_ge [of j x] xj j have b: "j \<le> binade x" "pow2 (binade x) \<le> x"
    by (simp_all only: ax)
  define u where "u = pow2 (binade x - 52)"
  have u: "0 < u" by (simp add: u_def)
  have "pow2 (binade x) / u = pow2 52"
    by (simp add: u_def pow2_diff)
  then have "pow2 52 \<le> x / u"
    using b(2) u by (metis divide_right_mono less_imp_le)
  then have "of_int (2 ^ 52) \<le> x / u"
    by (simp add: pow2_nat [of 52, simplified])
  then have "2 ^ 52 \<le> \<lfloor>x / u\<rfloor>" by (simp only: le_floor_iff)
  with round_even_floor [of "x / u"] have "2 ^ 52 \<le> round_even (x / u)" by linarith
  then have "of_int (2 ^ 52) \<le> (of_int (round_even (x / u)) :: real)"
    by (simp only: of_int_le_iff)
  then have "pow2 52 \<le> of_int (round_even (x / u))"
    by (simp add: pow2_nat [of 52, simplified])
  then have "pow2 52 * u \<le> of_int (round_even (x / u)) * u"
    using u by (simp only: mult_le_cancel_right_pos)
  moreover have "pow2 52 * u = pow2 (binade x)"
    by (simp add: u_def pow2_add [symmetric])
  moreover have "dbl x = of_int (round_even (x / u)) * u"
    using x0 by (simp add: dbl_def u_def)
  ultimately have "pow2 (binade x) \<le> dbl x" by simp
  moreover from b(1) have "pow2 j \<le> pow2 (binade x)" by (simp only: pow2_le)
  ultimately have "pow2 j \<le> dbl x" by linarith
  then show ?thesis by (simp only: pj)
qed

text \<open>
  The hash of the amount 0.29: the product of the double nearest to 0.29 and 100 rounds to
  \<open>28.999999999999996\<close>, which the cast truncates to 28.
\<close>

lemma dbl_product_values:
  "dbl (29 / 100) = 5224175567749775 / 18014398509481984"
  "dbl (130604389193744375 / 4503599627370496) = 8162774324609023 / 281474976710656"
  apply (simp_all add: dbl_def binade_def)
  apply (simp_all add: compute_floorlog pow2_def round_even_def)
  done

lemma quantize_rounded_product: "quantize (dbl (29 / 100)) = 28"
  by (simp add: quantize_def POT_QUANTIZE_def dbl_product_values)

section \<open>Pot accounting\<close>

lemma apply_action_amounts:
  "pot_bb (apply_action S s a) = add_all (pot_bb s) (addends S s a)"
  "player s = 0 \<Longrightarrow> p0_put_bb (apply_action S s a) = add_all (p0_put_bb s) (addends S s a)"
  "player s = 0 \<Longrightarrow> p1_put_bb (apply_action S s a) = p1_put_bb s"
  "player s \<noteq> 0 \<Longrightarrow> p1_put_bb (apply_action S s a) = add_all (p1_put_bb s) (addends S s a)"
  "player s \<noteq> 0 \<Longrightarrow> p0_put_bb (apply_action S s a) = p0_put_bb s"
  by (simp_all add: apply_action_def addends_def add_all_def Let_def)

lemma apply_action_bet:
  "current_bet_bb (apply_action S s a) = current_bet_bb s
   \<or> current_bet_bb (apply_action S s a) = 0
   \<or> (\<exists>i. 0 \<le> i \<and> i < num_bet_sizes S
         \<and> current_bet_bb (apply_action S s a) = bet_sizes S ! nat i)"
proof -
  have b: "IS_BET a (num_bet_sizes S) \<Longrightarrow>
      0 \<le> BET_INDEX a (num_bet_sizes S) \<and> BET_INDEX a (num_bet_sizes S) < num_bet_sizes S"
    by (simp add: IS_BET_def BET_INDEX_def)
  have r: "IS_RAISE a (num_bet_sizes S) \<Longrightarrow>
      0 \<le> RAISE_INDEX a (num_bet_sizes S) \<and> RAISE_INDEX a (num_bet_sizes S) < num_bet_sizes S"
    by (simp add: IS_RAISE_def RAISE_INDEX_def)
  show ?thesis
    using b r by (auto simp: apply_action_def Let_def)
qed

lemma addends_grid:
  assumes "grid_stakes k S" "current_bet_bb s = real nb / 2 ^ k"
  shows "\<exists>ms. addends S s a = map (\<lambda>m. real m / 2 ^ k) ms"
proof -
  let ?nsz = "num_bet_sizes S"
  from assms(1) have sizes: "\<And>i. 0 \<le> i \<Longrightarrow> i < ?nsz \<Longrightarrow> \<exists>b::nat. bet_sizes S ! nat i = real b / 2 ^ k"
    by (simp add: grid_stakes_def)
  have nil: "[] = map (\<lambda>m. real m / 2 ^ k) []" by simp
  have "addends S s a = []
      \<or> (IS_BET a ?nsz \<and> addends S s a = [bet_sizes S ! nat (BET_INDEX a ?nsz)])
      \<or> addends S s a = [current_bet_bb s]
      \<or> (IS_RAISE a ?nsz
          \<and> addends S s a = [current_bet_bb s, bet_sizes S ! nat (RAISE_INDEX a ?nsz)])"
    by (simp add: addends_def Let_def)
  then consider (none) "addends S s a = []"
    | (bet) "IS_BET a ?nsz" "addends S s a = [bet_sizes S ! nat (BET_INDEX a ?nsz)]"
    | (call) "addends S s a = [current_bet_bb s]"
    | (raise) "IS_RAISE a ?nsz"
        "addends S s a = [current_bet_bb s, bet_sizes S ! nat (RAISE_INDEX a ?nsz)]"
    by blast
  then show ?thesis
  proof cases
    case none
    then show ?thesis using nil by metis
  next
    case bet
    from bet(1) have "0 \<le> BET_INDEX a ?nsz" "BET_INDEX a ?nsz < ?nsz"
      by (simp_all add: IS_BET_def BET_INDEX_def)
    from sizes [OF this] obtain b :: nat where "bet_sizes S ! nat (BET_INDEX a ?nsz) = real b / 2 ^ k"
      by blast
    with bet(2) have "addends S s a = map (\<lambda>m. real m / 2 ^ k) [b]" by simp
    then show ?thesis by blast
  next
    case call
    with assms(2) have "addends S s a = map (\<lambda>m. real m / 2 ^ k) [nb]" by simp
    then show ?thesis by blast
  next
    case raise
    from raise(1) have "0 \<le> RAISE_INDEX a ?nsz" "RAISE_INDEX a ?nsz < ?nsz"
      by (simp_all add: IS_RAISE_def RAISE_INDEX_def)
    from sizes [OF this] obtain b :: nat where "bet_sizes S ! nat (RAISE_INDEX a ?nsz) = real b / 2 ^ k"
      by blast
    with raise(2) assms(2) have "addends S s a = map (\<lambda>m. real m / 2 ^ k) [nb, b]" by simp
    then show ?thesis by blast
  qed
qed

lemma add_all_big:
  assumes "k \<le> 1074"
  shows "2 ^ 53 / 2 ^ k \<le> x \<Longrightarrow> 2 ^ 53 / 2 ^ k \<le> add_all x (map (\<lambda>m. real m / 2 ^ k) ms)"
proof (induction ms arbitrary: x)
  case Nil
  then show ?case by (simp add: add_all_def)
next
  case (Cons m ms)
  have "0 \<le> real m / 2 ^ k" by simp
  with Cons.prems have "2 ^ 53 / 2 ^ k \<le> x + real m / 2 ^ k" by linarith
  then have "2 ^ 53 / 2 ^ k \<le> dbl (x + real m / 2 ^ k)" by (rule dbl_ge [OF assms])
  from Cons.IH [OF this] show ?case by (simp add: add_all_def)
qed

lemma grid_sum: "real n / 2 ^ k + real m / 2 ^ k = real (n + m) / 2 ^ k"
  by (simp add: add_divide_distrib)

lemma add_all_exact:
  assumes "k \<le> 1074"
  shows "n + sum_list ms < 2 ^ 53 \<Longrightarrow>
    add_all (real n / 2 ^ k) (map (\<lambda>m. real m / 2 ^ k) ms) = real (n + sum_list ms) / 2 ^ k"
proof (induction ms arbitrary: n)
  case Nil
  then show ?case by (simp add: add_all_def)
next
  case (Cons m ms)
  from Cons.prems have nm: "n + m < 2 ^ 53" and rest: "(n + m) + sum_list ms < 2 ^ 53"
    by simp_all
  have "dbl (real n / 2 ^ k + real m / 2 ^ k) = real (n + m) / 2 ^ k"
    unfolding grid_sum by (rule dbl_grid [OF assms nm])
  then have "add_all (real n / 2 ^ k) (map (\<lambda>m. real m / 2 ^ k) (m # ms))
      = add_all (real (n + m) / 2 ^ k) (map (\<lambda>m. real m / 2 ^ k) ms)"
    by (simp add: add_all_def)
  also have "\<dots> = real ((n + m) + sum_list ms) / 2 ^ k"
    by (rule Cons.IH [OF rest])
  finally show ?case by (simp add: add.assoc)
qed

lemma add_all_small:
  assumes "k \<le> 1074"
  shows "add_all (real n / 2 ^ k) (map (\<lambda>m. real m / 2 ^ k) ms) < 2 ^ 53 / 2 ^ k
    \<Longrightarrow> n + sum_list ms < 2 ^ 53"
proof (induction ms arbitrary: n)
  case Nil
  then have "real n < 2 ^ 53" by (simp add: add_all_def divide_less_cancel)
  then have "real n < real (2 ^ 53)" by simp
  then show ?case by (simp only: of_nat_less_iff list.simps sum_list.Nil add_0_right)
next
  case (Cons m ms)
  have step: "add_all (real n / 2 ^ k) (map (\<lambda>m. real m / 2 ^ k) (m # ms))
      = add_all (dbl (real (n + m) / 2 ^ k)) (map (\<lambda>m. real m / 2 ^ k) ms)"
    by (simp add: add_all_def grid_sum)
  have nm: "n + m < 2 ^ 53"
  proof (rule ccontr)
    assume "\<not> n + m < 2 ^ 53"
    then have "2 ^ 53 \<le> n + m" by simp
    then have "real (2 ^ 53) \<le> real (n + m)" by (simp only: of_nat_le_iff)
    then have "(2::real) ^ 53 \<le> real (n + m)" by simp
    then have "2 ^ 53 / 2 ^ k \<le> real (n + m) / 2 ^ k"
      by (simp add: divide_right_mono)
    then have "2 ^ 53 / 2 ^ k \<le> dbl (real (n + m) / 2 ^ k)" by (rule dbl_ge [OF assms])
    from add_all_big [OF assms this, of ms] Cons.prems show False
      unfolding step by linarith
  qed
  from dbl_grid [OF assms nm] Cons.prems
  have "add_all (real (n + m) / 2 ^ k) (map (\<lambda>m. real m / 2 ^ k) ms) < 2 ^ 53 / 2 ^ k"
    unfolding step by simp
  from Cons.IH [OF this] show ?case by (simp add: add.assoc)
qed

lemma child_infoset_amounts:
  "pot_bb (child_infoset S s a) = pot_bb (apply_action S s a)"
  "p0_put_bb (child_infoset S s a) = p0_put_bb (apply_action S s a)"
  "p1_put_bb (child_infoset S s a) = p1_put_bb (apply_action S s a)"
  "current_bet_bb (child_infoset S s a) = current_bet_bb (apply_action S s a)"
  by (simp_all add: child_infoset_def Let_def)

lemma on_grid_sum: "on_grid k s \<Longrightarrow> pot_bb s = p0_put_bb s + p1_put_bb s"
  by (auto simp: on_grid_def add_divide_distrib)

lemma apply_action_bet_grid:
  assumes "grid_stakes k S" "\<exists>nb::nat. current_bet_bb s = real nb / 2 ^ k"
  shows "\<exists>nb::nat. current_bet_bb (apply_action S s a) = real nb / 2 ^ k"
proof -
  from apply_action_bet [of S s a] show ?thesis
  proof (elim disjE exE conjE)
    assume "current_bet_bb (apply_action S s a) = current_bet_bb s"
    with assms(2) show ?thesis by simp
  next
    assume "current_bet_bb (apply_action S s a) = 0"
    then have "current_bet_bb (apply_action S s a) = real 0 / 2 ^ k" by simp
    then show ?thesis by blast
  next
    fix i assume "0 \<le> i" "i < num_bet_sizes S"
      and e: "current_bet_bb (apply_action S s a) = bet_sizes S ! nat i"
    with assms(1) obtain b :: nat where "bet_sizes S ! nat i = real b / 2 ^ k"
      unfolding grid_stakes_def by blast
    with e show ?thesis by auto
  qed
qed

lemma apply_action_step:
  assumes gs: "grid_stakes k S"
    and bet: "\<exists>nb::nat. current_bet_bb s = real nb / 2 ^ k"
    and inv: "pot_bb s < 2 ^ 53 / 2 ^ k \<longrightarrow> on_grid k s"
    and small: "pot_bb (apply_action S s a) < 2 ^ 53 / 2 ^ k"
  shows "on_grid k (apply_action S s a)"
    and "player s = 0 \<Longrightarrow>
      pot_bb (apply_action S s a) - pot_bb s = p0_put_bb (apply_action S s a) - p0_put_bb s"
    and "player s \<noteq> 0 \<Longrightarrow>
      pot_bb (apply_action S s a) - pot_bb s = p1_put_bb (apply_action S s a) - p1_put_bb s"
proof -
  from gs have k: "k \<le> 1074" by (simp add: grid_stakes_def)
  from bet obtain nb :: nat where "current_bet_bb s = real nb / 2 ^ k" by blast
  from addends_grid [OF gs this, of a]
  obtain ms where ms: "addends S s a = map (\<lambda>m. real m / 2 ^ k) ms" by blast
  let ?n = "apply_action S s a"
  have pot: "pot_bb ?n = add_all (pot_bb s) (map (\<lambda>m. real m / 2 ^ k) ms)"
    by (simp only: apply_action_amounts(1) ms)
  have "pot_bb s < 2 ^ 53 / 2 ^ k"
  proof (rule ccontr)
    assume "\<not> pot_bb s < 2 ^ 53 / 2 ^ k"
    then have "2 ^ 53 / 2 ^ k \<le> pot_bb s" by simp
    from add_all_big [OF k this, of ms] small show False
      unfolding pot by linarith
  qed
  with inv have "on_grid k s" by simp
  then obtain n0 n1 :: nat where g: "p0_put_bb s = real n0 / 2 ^ k" "p1_put_bb s = real n1 / 2 ^ k"
      "pot_bb s = real (n0 + n1) / 2 ^ k"
    unfolding on_grid_def by blast
  from small have "add_all (real (n0 + n1) / 2 ^ k) (map (\<lambda>m. real m / 2 ^ k) ms) < 2 ^ 53 / 2 ^ k"
    unfolding pot g(3) .
  from add_all_small [OF k this] have t: "n0 + n1 + sum_list ms < 2 ^ 53" .
  from add_all_exact [OF k t] have pot': "pot_bb ?n = real (n0 + n1 + sum_list ms) / 2 ^ k"
    unfolding pot g(3) .
  from t have t0: "n0 + sum_list ms < 2 ^ 53" and t1: "n1 + sum_list ms < 2 ^ 53"
    by simp_all
  have a0: "add_all (p0_put_bb s) (addends S s a) = real (n0 + sum_list ms) / 2 ^ k"
    unfolding g(1) ms by (rule add_all_exact [OF k t0])
  have a1: "add_all (p1_put_bb s) (addends S s a) = real (n1 + sum_list ms) / 2 ^ k"
    unfolding g(2) ms by (rule add_all_exact [OF k t1])
  show "on_grid k ?n"
  proof (cases "player s = 0")
    case True
    have "p0_put_bb ?n = real (n0 + sum_list ms) / 2 ^ k"
      using apply_action_amounts(2) [OF True, of S a] a0 by simp
    moreover have "p1_put_bb ?n = real n1 / 2 ^ k"
      using apply_action_amounts(3) [OF True, of S a] g(2) by simp
    moreover have "pot_bb ?n = real ((n0 + sum_list ms) + n1) / 2 ^ k"
      using pot' by (simp add: add.commute add.left_commute)
    ultimately show ?thesis unfolding on_grid_def by blast
  next
    case False
    have "p1_put_bb ?n = real (n1 + sum_list ms) / 2 ^ k"
      using apply_action_amounts(4) [OF False, of S a] a1 by simp
    moreover have "p0_put_bb ?n = real n0 / 2 ^ k"
      using apply_action_amounts(5) [OF False, of S a] g(1) by simp
    moreover have "pot_bb ?n = real (n0 + (n1 + sum_list ms)) / 2 ^ k"
      using pot' by (simp add: add.assoc)
    ultimately show ?thesis unfolding on_grid_def by blast
  qed
  show "pot_bb ?n - pot_bb s = p0_put_bb ?n - p0_put_bb s" if "player s = 0"
    using apply_action_amounts(2) [OF that, of S a] a0 pot' g
    by (simp add: diff_divide_distrib [symmetric])
  show "pot_bb ?n - pot_bb s = p1_put_bb ?n - p1_put_bb s" if "player s \<noteq> 0"
    using apply_action_amounts(4) [OF that, of S a] a1 pot' g
    by (simp add: diff_divide_distrib [symmetric])
qed

lemma reachable_grid:
  assumes "reachable S s" "grid_stakes k S"
  shows "(\<exists>nb::nat. current_bet_bb s = real nb / 2 ^ k)
       \<and> (pot_bb s < 2 ^ 53 / 2 ^ k \<longrightarrow> on_grid k s)"
  using assms(1)
proof (induction rule: reachable.induct)
  case root
  from assms(2) have k: "k \<le> 1074" by (simp add: grid_stakes_def)
  from assms(2) obtain a :: nat where a: "starting_pot_bb S = real (2 * a) / 2 ^ k"
    unfolding grid_stakes_def by blast
  have half: "starting_pot_bb S * (1 / 2) = real a / 2 ^ k"
    by (simp add: a)
  have "on_grid k (root_infoset S)" if "pot_bb (root_infoset S) < 2 ^ 53 / 2 ^ k"
  proof -
    from that have "real (2 * a) / 2 ^ k < 2 ^ 53 / 2 ^ k"
      by (simp add: root_infoset_def a)
    then have "real (2 * a) < 2 ^ 53" by (simp add: divide_less_cancel)
    then have "real (2 * a) < real (2 ^ 53)" by simp
    then have "2 * a < 2 ^ 53" by (simp only: of_nat_less_iff)
    then have "a < 2 ^ 53" by simp
    from dbl_grid [OF k this] have "dbl (starting_pot_bb S * (1 / 2)) = real a / 2 ^ k"
      by (simp only: half)
    then have "p0_put_bb (root_infoset S) = real a / 2 ^ k"
        "p1_put_bb (root_infoset S) = real a / 2 ^ k"
      by (simp_all add: root_infoset_def)
    moreover have "pot_bb (root_infoset S) = real (a + a) / 2 ^ k"
      by (simp add: root_infoset_def a)
    ultimately show ?thesis unfolding on_grid_def by blast
  qed
  moreover have "current_bet_bb (root_infoset S) = real 0 / 2 ^ k"
    by (simp add: root_infoset_def)
  ultimately show ?case by blast
next
  case (child s a)
  from child.IH have bet: "\<exists>nb::nat. current_bet_bb s = real nb / 2 ^ k"
    and inv: "pot_bb s < 2 ^ 53 / 2 ^ k \<longrightarrow> on_grid k s"
    by blast+
  have "\<exists>nb::nat. current_bet_bb (child_infoset S s a) = real nb / 2 ^ k"
    unfolding child_infoset_amounts by (rule apply_action_bet_grid [OF assms(2) bet])
  moreover have "on_grid k (child_infoset S s a)"
    if "pot_bb (child_infoset S s a) < 2 ^ 53 / 2 ^ k"
  proof -
    from that have "pot_bb (apply_action S s a) < 2 ^ 53 / 2 ^ k"
      by (simp only: child_infoset_amounts)
    from apply_action_step(1) [OF assms(2) bet inv this]
    show ?thesis unfolding on_grid_def child_infoset_amounts .
  qed
  ultimately show ?case by blast
next
  case (advance s)
  then show ?case by (simp add: advance_street_def on_grid_def)
qed

text \<open>
  C10, as amended. When half the starting pot and the bet sizes are natural multiples of
  \<open>2^-k\<close> (\<open>k \<le> 1074\<close>), then in every infoset that the recursion can reach from the
  root of \<open>mccfr_solve\<close> with a pot below \<open>2^(53-k)\<close> the pot is the sum of the two
  contributions; every action whose result keeps the pot below \<open>2^(53-k)\<close> preserves
  this, adds to the pot what it adds to the contribution of the player to act and leaves
  the other contribution as it is; and the street advance changes none of the three. No
  addition rounds under these conditions.
\<close>

theorem pot_accounting:
  assumes "reachable S s" and "grid_stakes k S" and "pot_bb s < 2 ^ 53 / 2 ^ k"
  shows "pot_bb s = p0_put_bb s + p1_put_bb s
     \<and> (\<forall>a. pot_bb (apply_action S s a) < 2 ^ 53 / 2 ^ k \<longrightarrow>
          pot_bb (apply_action S s a)
            = p0_put_bb (apply_action S s a) + p1_put_bb (apply_action S s a)
          \<and> (if player s = 0
             then pot_bb (apply_action S s a) - pot_bb s
                    = p0_put_bb (apply_action S s a) - p0_put_bb s
                  \<and> p1_put_bb (apply_action S s a) = p1_put_bb s
             else pot_bb (apply_action S s a) - pot_bb s
                    = p1_put_bb (apply_action S s a) - p1_put_bb s
                  \<and> p0_put_bb (apply_action S s a) = p0_put_bb s))
     \<and> pot_bb (advance_street s) = pot_bb s
     \<and> p0_put_bb (advance_street s) = p0_put_bb s
     \<and> p1_put_bb (advance_street s) = p1_put_bb s"
proof -
  from reachable_grid [OF assms(1,2)]
  have bet: "\<exists>nb::nat. current_bet_bb s = real nb / 2 ^ k"
    and inv: "pot_bb s < 2 ^ 53 / 2 ^ k \<longrightarrow> on_grid k s"
    by blast+
  from inv assms(3) have "on_grid k s" by simp
  then have sum: "pot_bb s = p0_put_bb s + p1_put_bb s" by (rule on_grid_sum)
  have step: "pot_bb (apply_action S s a)
            = p0_put_bb (apply_action S s a) + p1_put_bb (apply_action S s a)
          \<and> (if player s = 0
             then pot_bb (apply_action S s a) - pot_bb s
                    = p0_put_bb (apply_action S s a) - p0_put_bb s
                  \<and> p1_put_bb (apply_action S s a) = p1_put_bb s
             else pot_bb (apply_action S s a) - pot_bb s
                    = p1_put_bb (apply_action S s a) - p1_put_bb s
                  \<and> p0_put_bb (apply_action S s a) = p0_put_bb s)"
    if small: "pot_bb (apply_action S s a) < 2 ^ 53 / 2 ^ k" for a
  proof -
    note st = apply_action_step [OF assms(2) bet inv small]
    from st(1) have "pot_bb (apply_action S s a)
        = p0_put_bb (apply_action S s a) + p1_put_bb (apply_action S s a)"
      by (rule on_grid_sum)
    with st(2,3) apply_action_amounts(3,5) [of s S a] show ?thesis by simp
  qed
  have "pot_bb (advance_street s) = pot_bb s" "p0_put_bb (advance_street s) = p0_put_bb s"
      "p1_put_bb (advance_street s) = p1_put_bb s"
    by (simp_all add: advance_street_def)
  with sum step show ?thesis by blast
qed

text \<open>The default stakes are on the grid of step 1/4.\<close>

lemma dbl_raise_values:
  "dbl (9 / 2) = 9 / 2" "dbl (11 / 4) = 11 / 4" "dbl (11 / 2) = 11 / 2"
  apply (simp_all add: dbl_def binade_def)
  apply (simp_all add: compute_floorlog pow2_def round_even_def)
  done

lemma raise_children:
  "child_infoset deal_solver (root_infoset deal_solver) 1 = after_bet"
  "child_infoset deal_solver after_bet 4 = after_bet_raise"
  unfolding deal_root
  by (simp_all add: after_bet_def after_bet_raise_def
      child_infoset_def apply_action_def deal_solver_simps action_defs Let_def dbl_raise_values dbl_deal_values)

lemma raise_reachable: "reachable deal_solver after_bet_raise"
proof -
  have "reachable deal_solver (child_infoset deal_solver (root_infoset deal_solver) 1)"
    by (rule reachable.child [OF reachable.root])
       (simp_all add: deal_root legal_actions_def facing_bet_def deal_solver_simps action_defs)
  then have "reachable deal_solver after_bet"
    by (simp only: raise_children)
  then have "reachable deal_solver (child_infoset deal_solver after_bet 4)"
    by (rule reachable.child)
       (simp_all add: after_bet_def legal_actions_def facing_bet_def is_terminal_def
         raise_count_def MAX_RAISES_def deal_solver_simps action_defs)
  then show ?thesis
    by (simp only: raise_children)
qed

lemma deal_grid_stakes: "grid_stakes 2 deal_solver"
  unfolding grid_stakes_def
proof (intro conjI allI impI)
  show "(2::nat) \<le> 1074" by simp
  have "starting_pot_bb deal_solver = real (2 * 3) / 2 ^ 2"
    by (simp add: deal_solver_simps)
  then show "\<exists>a::nat. starting_pot_bb deal_solver = real (2 * a) / 2 ^ 2"
    by (rule exI)
  fix i assume "0 \<le> i \<and> i < num_bet_sizes deal_solver"
  then have "i = 0" by (simp add: deal_solver_simps)
  then have "bet_sizes deal_solver ! nat i = real 4 / 2 ^ 2"
    by (simp add: deal_solver_simps)
  then show "\<exists>b::nat. bet_sizes deal_solver ! nat i = real b / 2 ^ 2"
    by (rule exI)
qed

lemma raise_call:
  "pot_bb (apply_action deal_solver after_bet_raise 3) = 11 / 2"
  "p0_put_bb (apply_action deal_solver after_bet_raise 3) = 11 / 4"
  "p1_put_bb (apply_action deal_solver after_bet_raise 3) = 11 / 4"
  by (simp_all add: after_bet_raise_def apply_action_def deal_solver_simps action_defs Let_def
      dbl_raise_values dbl_deal_values)

theorem pot_accounting_witness:
  "reachable deal_solver after_bet_raise \<and> grid_stakes 2 deal_solver
   \<and> pot_bb after_bet_raise = 9 / 2 \<and> p0_put_bb after_bet_raise = 7 / 4
   \<and> p1_put_bb after_bet_raise = 11 / 4
   \<and> pot_bb after_bet_raise = p0_put_bb after_bet_raise + p1_put_bb after_bet_raise
   \<and> pot_bb (apply_action deal_solver after_bet_raise 3) = 11 / 2
   \<and> pot_bb (apply_action deal_solver after_bet_raise 3)
       = p0_put_bb (apply_action deal_solver after_bet_raise 3)
         + p1_put_bb (apply_action deal_solver after_bet_raise 3)
   \<and> pot_bb (apply_action deal_solver after_bet_raise 3) - pot_bb after_bet_raise
       = p0_put_bb (apply_action deal_solver after_bet_raise 3) - p0_put_bb after_bet_raise"
proof -
  have small: "pot_bb after_bet_raise < 2 ^ 53 / 2 ^ 2"
    by (simp add: after_bet_raise_def)
  have small': "pot_bb (apply_action deal_solver after_bet_raise 3) < 2 ^ 53 / 2 ^ 2"
    by (simp add: raise_call)
  have p: "player after_bet_raise = 0" by (simp add: after_bet_raise_def)
  note all = pot_accounting [of deal_solver after_bet_raise 2,
      OF raise_reachable deal_grid_stakes small]
  from all have sum:
    "pot_bb after_bet_raise = p0_put_bb after_bet_raise + p1_put_bb after_bet_raise"
    by (rule conjunct1)
  from all [THEN conjunct2, THEN conjunct1, THEN spec, of 3, THEN mp, OF small']
  have step: "pot_bb (apply_action deal_solver after_bet_raise 3)
       = p0_put_bb (apply_action deal_solver after_bet_raise 3)
         + p1_put_bb (apply_action deal_solver after_bet_raise 3)"
    and "if player after_bet_raise = 0
       then pot_bb (apply_action deal_solver after_bet_raise 3) - pot_bb after_bet_raise
              = p0_put_bb (apply_action deal_solver after_bet_raise 3) - p0_put_bb after_bet_raise
            \<and> p1_put_bb (apply_action deal_solver after_bet_raise 3) = p1_put_bb after_bet_raise
       else pot_bb (apply_action deal_solver after_bet_raise 3) - pot_bb after_bet_raise
              = p1_put_bb (apply_action deal_solver after_bet_raise 3) - p1_put_bb after_bet_raise
            \<and> p0_put_bb (apply_action deal_solver after_bet_raise 3) = p0_put_bb after_bet_raise"
    by (rule conjunct1, rule conjunct2)
  then have diff: "pot_bb (apply_action deal_solver after_bet_raise 3) - pot_bb after_bet_raise
       = p0_put_bb (apply_action deal_solver after_bet_raise 3) - p0_put_bb after_bet_raise"
    by (simp only: p if_True)
  have vals: "pot_bb after_bet_raise = 9 / 2" "p0_put_bb after_bet_raise = 7 / 4"
    "p1_put_bb after_bet_raise = 11 / 4"
    by (simp_all add: after_bet_raise_def)
  show ?thesis
    by (intro conjI raise_reachable deal_grid_stakes vals sum raise_call(1) step diff)
qed

lemma dbl_tenth_values:
  "dbl (1 / 10) = 3602879701896397 / 36028797018963968"
  "dbl (57646075230342349 / 36028797018963968) = 3602879701896397 / 2251799813685248"
  "dbl (30624477466119373 / 36028797018963968) = 7656119366529843 / 9007199254740992"
  "dbl (61248954932238749 / 36028797018963968) = 1914029841632461 / 1125899906842624"
  "dbl (7656119366529843 / 4503599627370496) = 7656119366529843 / 4503599627370496"
  apply (simp_all add: dbl_def binade_def)
  apply (simp_all add: compute_floorlog pow2_def round_even_def)
  done

lemma tenth_solver_simps:
  "num_bet_sizes tenth_solver = 1"
  "bet_sizes tenth_solver = [3602879701896397 / 36028797018963968, 0, 0, 0]"
  "starting_pot_bb tenth_solver = 3 / 2" "solver_board tenth_solver = 0x8000017"
  by (simp_all add: tenth_solver_def deal_solver_simps)

lemma tenth_set_stakes:
  "mccfr_set_stakes deal_solver 1 (3 / 2) [dbl (1 / 10)] 1 = Some tenth_solver"
  by (simp add: mccfr_set_stakes_def MAX_BET_SIZES_def tenth_solver_def dbl_tenth_values
      deal_solver_def mccfr_create_def)

lemma tenth_root:
  "root_infoset tenth_solver = \<lparr>board = 0x8000017, street = STREET_FLOP, player = 0,
      num_actions = 0, actions = [0, 0, 0, 0, 0, 0, 0, 0, 0, 0], pot_bb = 3 / 2,
      current_bet_bb = 0, p0_put_bb = 3 / 4, p1_put_bb = 3 / 4\<rparr>"
  by (simp add: root_infoset_def tenth_solver_simps replicate_history dbl_deal_values)

lemma tenth_children:
  "child_infoset tenth_solver (root_infoset tenth_solver) 1 = tenth_after_bet"
  "child_infoset tenth_solver tenth_after_bet 3 = tenth_after_bet_call"
  unfolding tenth_root
  by (simp_all add: tenth_after_bet_def tenth_after_bet_call_def
      child_infoset_def apply_action_def tenth_solver_simps action_defs Let_def dbl_tenth_values)

lemma tenth_reachable: "reachable tenth_solver tenth_after_bet_call"
proof -
  have "reachable tenth_solver (child_infoset tenth_solver (root_infoset tenth_solver) 1)"
    by (rule reachable.child [OF reachable.root])
       (simp_all add: tenth_root legal_actions_def facing_bet_def tenth_solver_simps action_defs)
  then have "reachable tenth_solver tenth_after_bet"
    by (simp only: tenth_children)
  then have "reachable tenth_solver (child_infoset tenth_solver tenth_after_bet 3)"
    by (rule reachable.child)
       (simp_all add: tenth_after_bet_def legal_actions_def facing_bet_def is_terminal_def
         raise_count_def MAX_RAISES_def tenth_solver_simps action_defs)
  then show ?thesis
    by (simp only: tenth_children)
qed

text \<open>
  C10 as stated fails with a bet size of 0.1 big blinds: after the bet of player 0 and the
  call of player 1 the pot is \<open>1.5 + 0.1 + 0.1\<close>, rounded after each addition to
  \<open>1.7000000000000002\<close>, while each contribution is \<open>0.75 + 0.1\<close>, rounded to
  \<open>0.85\<close>; their sum is the double \<open>1.7\<close>, one unit in the last place below the pot.
\<close>

theorem pot_differs_from_contributions:
  "mccfr_set_stakes deal_solver 1 (3 / 2) [dbl (1 / 10)] 1 = Some tenth_solver
   \<and> reachable tenth_solver tenth_after_bet_call
   \<and> pot_bb tenth_after_bet_call
       \<noteq> p0_put_bb tenth_after_bet_call + p1_put_bb tenth_after_bet_call
   \<and> pot_bb tenth_after_bet_call
       \<noteq> dbl (p0_put_bb tenth_after_bet_call + p1_put_bb tenth_after_bet_call)"
  using tenth_reachable tenth_set_stakes
  by (simp add: tenth_after_bet_call_def dbl_tenth_values)

section \<open>The range parser on a suited plus specifier\<close>

lemmas ctype_defs = toupper_def tolower_def lower_letters_def upper_letters_def

lemma add_hands_append:
  "count rng + length hs \<le> 1326 \<Longrightarrow>
     hands (add_hands rng hs pct) = hands rng @ hs
     \<and> count (add_hands rng hs pct) = count rng + length hs"
  by (induction hs arbitrary: rng) auto

lemma combos_length [simp]:
  "length (suited_combos X r) = 4" "length (offsuit_combos X r) = 12"
  by (simp_all add: suited_combos_def offsuit_combos_def)

lemma add_both:
  assumes "X \<noteq> r" and "count rng + 16 \<le> 1326"
  shows "hands (add_offsuit_hands (add_suited_hands rng X r pct) X r pct)
           = hands rng @ suited_combos X r @ offsuit_combos X r"
    and "count (add_offsuit_hands (add_suited_hands rng X r pct) X r pct) = count rng + 16"
proof -
  have s: "hands (add_suited_hands rng X r pct) = hands rng @ suited_combos X r"
    "count (add_suited_hands rng X r pct) = count rng + 4"
    using assms add_hands_append [of rng "suited_combos X r" pct]
    by (simp_all add: add_suited_hands_def suited_combos_def)
  have "count (add_suited_hands rng X r pct) + length (offsuit_combos X r) \<le> 1326"
    using assms s by simp
  from add_hands_append [OF this, of pct] assms(1) s
  show "hands (add_offsuit_hands (add_suited_hands rng X r pct) X r pct)
           = hands rng @ suited_combos X r @ offsuit_combos X r"
    and "count (add_offsuit_hands (add_suited_hands rng X r pct) X r pct) = count rng + 16"
    by (simp_all add: add_offsuit_hands_def offsuit_combos_def)
qed

lemma plus_loop:
  assumes "n \<le> nat X" and "X \<le> 12" and "count rng = 0" and "hands rng = []"
  shows "hands (fold (\<lambda>r rng. add_offsuit_hands (add_suited_hands rng X (int r) pct) X (int r) pct)
                 [0..<n] rng)
           = concat (map (\<lambda>r. suited_combos X (int r) @ offsuit_combos X (int r)) [0..<n])
       \<and> count (fold (\<lambda>r rng. add_offsuit_hands (add_suited_hands rng X (int r) pct) X (int r) pct)
                 [0..<n] rng) = 16 * n"
  using assms(1)
proof (induction n)
  case 0
  then show ?case using assms by simp
next
  case (Suc n)
  let ?R = "fold (\<lambda>r rng. add_offsuit_hands (add_suited_hands rng X (int r) pct) X (int r) pct)
                 [0..<n] rng"
  from Suc have IH: "hands ?R = concat (map (\<lambda>r. suited_combos X (int r) @ offsuit_combos X (int r)) [0..<n])"
    "count ?R = 16 * n" by simp_all
  from Suc.prems assms(2) have "X \<noteq> int n" "count ?R + 16 \<le> 1326"
    using IH(2) by auto
  from add_both [OF this, of pct] IH show ?case by simp
qed

lemma rank_to_idx_range: "rank_to_idx c < 13"
  by (auto simp: rank_to_idx_def ranks_up_def split: option.splits dest!: find_Some_iff [THEN iffD1])

lemma rank_char:
  assumes "0 \<le> rank_to_idx c"
  shows "c \<noteq> CHR ''@''" "c \<noteq> CHR '',''" "c \<noteq> CHR '' ''"
proof -
  have "rank_to_idx CHR ''@'' = -1" "rank_to_idx CHR '','' = -1" "rank_to_idx CHR '' '' = -1"
    by (simp_all add: rank_to_idx_def RANKS_def ranks_up_def ctype_defs)
  with assms show "c \<noteq> CHR ''@''" "c \<noteq> CHR '',''" "c \<noteq> CHR '' ''" by auto
qed

lemma parse_suited_plus_spec:
  assumes "rank_to_idx cx = X" and "rank_to_idx cy = Y" and "0 \<le> Y" and "Y < X"
    and "count rng = 0" and "hands rng = []"
  shows "hands (parse_hand_spec atof rng [cx, cy, CHR ''s'', CHR ''+''])
       = concat (map (\<lambda>r. suited_combos X (int r) @ offsuit_combos X (int r)) [0..<nat X])"
proof -
  from assms have cx: "cx \<noteq> CHR ''@''" and cy: "cy \<noteq> CHR ''@''"
    using rank_char(1) [of cx] rank_char(1) [of cy] by auto
  have X: "X \<le> 12" using rank_to_idx_range [of cx] assms(1) by simp
  have t: "tolower CHR ''+'' = CHR ''+''" by (simp add: ctype_defs)
  have "parse_hand_spec atof rng [cx, cy, CHR ''s'', CHR ''+'']
      = fold (\<lambda>r rng. add_offsuit_hands (add_suited_hands rng X (int r) pct) X (int r) pct)
          [0..<nat X] rng" if "pct = 1" for pct
    using assms cx cy that by (simp add: parse_hand_spec_def Let_def t)
  then show ?thesis
    using plus_loop [of "nat X" X rng 1] X assms by simp
qed

lemma parse_range_single:
  assumes "0 \<le> rank_to_idx cx" and "0 \<le> rank_to_idx cy"
  shows "parse_range atof [cx, cy, CHR ''s'', CHR ''+'']
       = parse_hand_spec atof \<lparr>hands = [], hand_percentages = [], count = 0, percentage = 1\<rparr>
           [cx, cy, CHR ''s'', CHR ''+'']"
  using rank_char [OF assms(1)] rank_char [OF assms(2)]
  by (simp add: parse_range_def last_index_def trim_token_def Let_def upt_rec)


lemma suited_combos_set:
  "(c0, c1) \<in> set (suited_combos X r)
     \<longleftrightarrow> (\<exists>suit. 0 \<le> suit \<and> suit < 4 \<and> c0 = X * 4 + suit \<and> c1 = r * 4 + suit)"
proof
  assume "(c0, c1) \<in> set (suited_combos X r)"
  then consider "c0 = X * 4 + 0 \<and> c1 = r * 4 + 0" | "c0 = X * 4 + 1 \<and> c1 = r * 4 + 1"
    | "c0 = X * 4 + 2 \<and> c1 = r * 4 + 2" | "c0 = X * 4 + 3 \<and> c1 = r * 4 + 3"
    by (auto simp: suited_combos_def)
  then show "\<exists>suit. 0 \<le> suit \<and> suit < 4 \<and> c0 = X * 4 + suit \<and> c1 = r * 4 + suit"
  proof cases
    case 1 then show ?thesis by (intro exI [of _ 0]) simp
  next
    case 2 then show ?thesis by (intro exI [of _ 1]) simp
  next
    case 3 then show ?thesis by (intro exI [of _ 2]) simp
  next
    case 4 then show ?thesis by (intro exI [of _ 3]) simp
  qed
next
  assume "\<exists>suit. 0 \<le> suit \<and> suit < 4 \<and> c0 = X * 4 + suit \<and> c1 = r * 4 + suit"
  then obtain suit :: int where s: "0 \<le> suit" "suit < 4" "c0 = X * 4 + suit" "c1 = r * 4 + suit"
    by blast
  then have "suit = 0 \<or> suit = 1 \<or> suit = 2 \<or> suit = 3" by arith
  with s(3,4) show "(c0, c1) \<in> set (suited_combos X r)"
    by (auto simp: suited_combos_def)
qed

lemma offsuit_combos_not_suited:
  assumes "(c0, c1) \<in> set (offsuit_combos X r)"
  shows "c0 mod 4 \<noteq> c1 mod 4"
proof -
  have m: "(a * 4 + b) mod 4 = b mod 4" for a b :: int
    by simp
  from assms obtain s1 s2 :: int where
    "c0 = X * 4 + s1" "c1 = r * 4 + s2" "s1 \<in> {0, 1, 2, 3}" "s2 \<in> {0, 1, 2, 3}" "s1 \<noteq> s2"
    by (auto simp: offsuit_combos_def)
  then show ?thesis
    unfolding \<open>c0 = X * 4 + s1\<close> \<open>c1 = r * 4 + s2\<close> m by auto
qed
text \<open>
  C8, as amended. For ranks X above Y, the output for the specifier \<open>XYs+\<close> contains, among
  the suited combinations, exactly those with high card X and a low card of any rank
  below X (also the ranks below Y), one per suit.
\<close>

theorem suited_plus_suited_part:
  assumes "rank_to_idx cx = X" and "rank_to_idx cy = Y" and "0 \<le> Y" and "Y < X"
  shows "\<forall>c0 c1. c0 mod 4 = c1 mod 4 \<longrightarrow>
           ((c0, c1) \<in> set (hands (parse_range atof [cx, cy, CHR ''s'', CHR ''+'']))
            \<longleftrightarrow> (\<exists>r suit. 0 \<le> r \<and> r < X \<and> 0 \<le> suit \<and> suit < 4
                   \<and> c0 = X * 4 + suit \<and> c1 = r * 4 + suit))"
proof (intro allI impI)
  fix c0 c1 :: int
  assume suited: "c0 mod 4 = c1 mod 4"
  have "0 \<le> rank_to_idx cx" "0 \<le> rank_to_idx cy" using assms by simp_all
  from parse_range_single [OF this, of atof]
    parse_suited_plus_spec [OF assms, of "\<lparr>hands = [], hand_percentages = [], count = 0,
      percentage = 1\<rparr>" atof]
  have h: "hands (parse_range atof [cx, cy, CHR ''s'', CHR ''+''])
      = concat (map (\<lambda>r. suited_combos X (int r) @ offsuit_combos X (int r)) [0..<nat X])"
    by simp
  have "(c0, c1) \<in> set (hands (parse_range atof [cx, cy, CHR ''s'', CHR ''+'']))
      \<longleftrightarrow> (\<exists>n<nat X. (c0, c1) \<in> set (suited_combos X (int n))
                        \<or> (c0, c1) \<in> set (offsuit_combos X (int n)))"
    unfolding h by (simp add: Bex_def)
  also have "\<dots> \<longleftrightarrow> (\<exists>n<nat X. (c0, c1) \<in> set (suited_combos X (int n)))"
    using suited offsuit_combos_not_suited [of c0 c1 X] by blast
  also have "\<dots> \<longleftrightarrow> (\<exists>r suit. 0 \<le> r \<and> r < X \<and> 0 \<le> suit \<and> suit < 4
                   \<and> c0 = X * 4 + suit \<and> c1 = r * 4 + suit)"
  proof
    assume "\<exists>n<nat X. (c0, c1) \<in> set (suited_combos X (int n))"
    then obtain n where n: "n < nat X" "(c0, c1) \<in> set (suited_combos X (int n))" by blast
    then obtain suit where "0 \<le> suit" "suit < 4" "c0 = X * 4 + suit" "c1 = int n * 4 + suit"
      unfolding suited_combos_set by blast
    with n(1) show "\<exists>r suit. 0 \<le> r \<and> r < X \<and> 0 \<le> suit \<and> suit < 4
                   \<and> c0 = X * 4 + suit \<and> c1 = r * 4 + suit"
      by (intro exI [of _ "int n"] exI [of _ suit]) auto
  next
    assume "\<exists>r suit. 0 \<le> r \<and> r < X \<and> 0 \<le> suit \<and> suit < 4
                   \<and> c0 = X * 4 + suit \<and> c1 = r * 4 + suit"
    then obtain r suit where r: "0 \<le> r" "r < X" "0 \<le> suit" "suit < 4"
      "c0 = X * 4 + suit" "c1 = r * 4 + suit" by blast
    then have "nat r < nat X" "(c0, c1) \<in> set (suited_combos X (int (nat r)))"
      unfolding suited_combos_set by auto
    then show "\<exists>n<nat X. (c0, c1) \<in> set (suited_combos X (int n))" by blast
  qed
  finally show "(c0, c1) \<in> set (hands (parse_range atof [cx, cy, CHR ''s'', CHR ''+'']))
            \<longleftrightarrow> (\<exists>r suit. 0 \<le> r \<and> r < X \<and> 0 \<le> suit \<and> suit < 4
                   \<and> c0 = X * 4 + suit \<and> c1 = r * 4 + suit)" .
qed



lemma rank_to_idx_A8:
  "rank_to_idx CHR ''A'' = 12" "rank_to_idx CHR ''8'' = 6"
  by (simp_all add: rank_to_idx_def RANKS_def ranks_up_def ctype_defs)

theorem suited_plus_suited_part_witness:
  "rank_to_idx CHR ''A'' = 12 \<and> rank_to_idx CHR ''8'' = 6
   \<and> (48, 0) \<in> set (hands (parse_range (\<lambda>s. 0) ''A8s+''))
   \<and> (44, 0) \<notin> set (hands (parse_range (\<lambda>s. 0) ''A8s+''))"
proof -
  have m: "(48::int) mod 4 = 0 mod 4" "(44::int) mod 4 = 0 mod 4"
    by simp_all
  have yes: "\<exists>r suit. 0 \<le> r \<and> r < (12::int) \<and> 0 \<le> suit \<and> suit < (4::int)
      \<and> (48::int) = 12 * 4 + suit \<and> (0::int) = r * 4 + suit"
    by (intro exI [of _ 0]) simp
  have no: "\<not> (\<exists>r suit. 0 \<le> r \<and> r < (12::int) \<and> 0 \<le> suit \<and> suit < (4::int)
      \<and> (44::int) = 12 * 4 + suit \<and> (0::int) = r * 4 + suit)"
  proof
    assume "\<exists>r suit. 0 \<le> r \<and> r < (12::int) \<and> 0 \<le> suit \<and> suit < (4::int)
      \<and> (44::int) = 12 * 4 + suit \<and> (0::int) = r * 4 + suit"
    then obtain suit :: int where "0 \<le> suit" "44 = 12 * 4 + suit" by blast
    then show False by linarith
  qed
  have i: "(0::int) \<le> 6" "(6::int) < 12"
    by simp_all
  from suited_plus_suited_part [OF rank_to_idx_A8 i, rule_format, OF m(1), of "\<lambda>s. 0"] yes
  have "(48, 0) \<in> set (hands (parse_range (\<lambda>s. 0) ''A8s+''))"
    by blast
  moreover
  from suited_plus_suited_part [OF rank_to_idx_A8 i, rule_format, OF m(2), of "\<lambda>s. 0"] no
  have "(44, 0) \<notin> set (hands (parse_range (\<lambda>s. 0) ''A8s+''))"
    by blast
  ultimately show ?thesis
    using rank_to_idx_A8 by blast
qed



text \<open>
  C8 as stated fails for \<open>A8s+\<close>: the output holds the suited combination of the ace and
  the deuce of suit 0 (cards 48 and 0), whose low card is below the 8, and the offsuit
  combination of the ace of suit 0 and the deuce of suit 1 (cards 48 and 1); so it is not
  the set of suited combinations with an ace and a low card from the 8 up.
\<close>

theorem suited_plus_counterexample:
  "(48, 0) \<in> set (hands (parse_range (\<lambda>s. 0) ''A8s+''))
   \<and> (48, 1) \<in> set (hands (parse_range (\<lambda>s. 0) ''A8s+''))
   \<and> set (hands (parse_range (\<lambda>s. 0) ''A8s+''))
       \<noteq> {(12 * 4 + suit, r * 4 + suit) | r suit. 6 \<le> r \<and> r < 12 \<and> 0 \<le> suit \<and> suit < 4}"
proof -
  have "0 \<le> rank_to_idx CHR ''A''" "0 \<le> rank_to_idx CHR ''8''"
    by (simp_all add: rank_to_idx_A8)
  from parse_range_single [OF this, of "\<lambda>s. 0"]
    parse_suited_plus_spec [OF rank_to_idx_A8, of "\<lparr>hands = [], hand_percentages = [],
      count = 0, percentage = 1\<rparr>" "\<lambda>s. 0"]
  have h: "hands (parse_range (\<lambda>s. 0) ''A8s+'')
      = concat (map (\<lambda>r. suited_combos 12 (int r) @ offsuit_combos 12 (int r)) [0..<12])"
    by simp
  have "[0..<12] = 0 # [1..<12]"
    by (simp add: upt_rec)
  then have m: "(48, 0) \<in> set (hands (parse_range (\<lambda>s. 0) ''A8s+''))"
    "(48, 1) \<in> set (hands (parse_range (\<lambda>s. 0) ''A8s+''))"
    unfolding h by (simp_all add: suited_combos_def offsuit_combos_def)
  have "(48, 0) \<notin> {(12 * 4 + suit, r * 4 + suit) | r suit. 6 \<le> r \<and> r < 12 \<and> 0 \<le> suit \<and> suit < (4::int)}"
    by auto
  with m show ?thesis by auto
qed

section \<open>Linear probing\<close>

lemma probe_step_mask: "(idx + 1) AND 0xFFFF = idx + (1 :: 16 word)"
proof -
  have "(0xFFFF :: 16 word) = - 1" by simp
  then have "(idx + 1) AND 0xFFFF = (idx + 1) AND - 1" by (simp only:)
  then show ?thesis by (simp only: and.right_neutral)
qed

lemma probe_found:
  assumes "\<forall>j<d. keys ! unat (i + of_nat j) \<noteq> 0 \<and> keys ! unat (i + of_nat j) \<noteq> k"
    and "keys ! unat (i + of_nat d) = 0 \<or> keys ! unat (i + of_nat d) = k"
  shows "probe keys k i = Some (i + of_nat d)"
  using assms
proof (induction d arbitrary: i)
  case 0
  then show ?case by (subst probe.simps) auto
next
  case (Suc d)
  have here: "keys ! unat i \<noteq> 0 \<and> keys ! unat i \<noteq> k"
    using Suc.prems(1) [rule_format, of 0] by simp
  have shift: "i + 1 + of_nat j = i + of_nat (Suc j)" for j
    by simp
  have "probe keys k (i + 1) = Some (i + 1 + of_nat d)"
  proof (rule Suc.IH)
    show "\<forall>j<d. keys ! unat (i + 1 + of_nat j) \<noteq> 0 \<and> keys ! unat (i + 1 + of_nat j) \<noteq> k"
      using Suc.prems(1) unfolding shift by auto
    show "keys ! unat (i + 1 + of_nat d) = 0 \<or> keys ! unat (i + 1 + of_nat d) = k"
      using Suc.prems(2) unfolding shift by auto
  qed
  then show ?case
    using here by (subst probe.simps) (simp add: probe_step_mask)
qed

lemma probe_stored:
  "stored_at keys k d \<Longrightarrow> probe keys k (get_rank_hash k) = Some (get_rank_hash k + of_nat d)"
  by (rule probe_found) (auto simp: stored_at_def)

lemma unat_slot_less [simp]: "unat (i :: 16 word) < 65536"
  using unsigned_less [of i, where ?'a = nat] by simp

text \<open>Every slot is met by the walk that starts at any index.\<close>

lemma slot_reached:
  assumes "n < 65536"
  shows "\<exists>d<65536. unat (i + of_nat d :: 16 word) = n"
proof -
  have "unat (i + (of_nat n - i)) = n"
    using assms by (simp add: unat_of_nat)
  moreover have "of_nat n - i = (of_nat (unat (of_nat n - i)) :: 16 word)"
    by simp
  ultimately have "unat (i + of_nat (unat (of_nat n - i :: 16 word))) = n"
    by simp
  then show ?thesis
    using unat_slot_less [of "of_nat n - i"] by blast
qed

lemma first_free_slot:
  assumes "\<exists>n<65536. keys ! n = 0"
  shows "\<exists>d. keys ! unat (i + of_nat d :: 16 word) = 0
             \<and> (\<forall>j<d. keys ! unat (i + of_nat j :: 16 word) \<noteq> 0)"
proof -
  from assms obtain n where "n < 65536" "keys ! n = 0" by blast
  with slot_reached [of n i] obtain d where d: "keys ! unat (i + of_nat d :: 16 word) = 0"
    by auto
  define P where "P d \<longleftrightarrow> keys ! unat (i + of_nat d :: 16 word) = 0" for d
  from d have "P d" by (simp add: P_def)
  then have "P (LEAST d. P d)"
    by (rule LeastI)
  moreover have "\<not> P j" if "j < (LEAST d. P d)" for j
    using that by (rule not_less_Least)
  ultimately show ?thesis unfolding P_def by blast
qed

lemma free_slot_exists:
  assumes inv: "probe_inv keys K" and fin: "finite K" and card: "card K < 65536"
  shows "\<exists>n<65536. keys ! n = 0"
proof (rule ccontr)
  assume "\<not> (\<exists>n<65536. keys ! n = 0)"
  then have full: "\<And>n. n < 65536 \<Longrightarrow> keys ! n \<noteq> 0" by blast
  have "inj_on (\<lambda>n. keys ! n) {..<65536}"
    using inv full by (auto simp: probe_inv_def inj_on_def)
  moreover have "(\<lambda>n. keys ! n) ` {..<65536} \<subseteq> K"
    using inv full by (auto simp: probe_inv_def)
  ultimately have "card {..<65536::nat} \<le> card K"
    using fin by (metis card_image card_mono)
  with card show False by simp
qed

lemma insert_rank_new:
  assumes inv: "probe_inv (rank_keys T) K" and fin: "finite K" and card: "card K < 65536"
    and len: "length (rank_map T) = 65536"
    and k: "k \<noteq> 0" "k \<notin> K" and v: "calculate_rank_strength rs = Some v"
  shows "\<exists>T'. insert_rank k rs T = Some T' \<and> probe_inv (rank_keys T') (insert k K)
           \<and> length (rank_map T') = 65536 \<and> flush_map T' = flush_map T"
proof -
  let ?keys = "rank_keys T"
  let ?h = "get_rank_hash k"
  from inv have lenk: "length ?keys = 65536" by (simp add: probe_inv_def)
  from inv k have absent: "\<And>n. n < 65536 \<Longrightarrow> ?keys ! n \<noteq> k"
    by (auto simp: probe_inv_def)
  from first_free_slot [OF free_slot_exists [OF inv fin card], of ?h]
  obtain d where d: "?keys ! unat (?h + of_nat d) = 0"
    "\<And>j. j < d \<Longrightarrow> ?keys ! unat (?h + of_nat j) \<noteq> 0" by blast
  let ?s = "unat (?h + of_nat d)"
  have p: "probe ?keys k ?h = Some (?h + of_nat d)"
    by (rule probe_found) (use d absent in auto)
  let ?T' = "T\<lparr>rank_map := (rank_map T)[?s := v mod 65536], rank_keys := ?keys[?s := k]\<rparr>"
  have ins: "insert_rank k rs T = Some ?T'"
    using lenk len p d(1) v by (simp add: insert_rank_def)
  have upd: "?keys[?s := k] ! n = (if n = ?s then k else ?keys ! n)" if "n < 65536" for n
    using that lenk by (simp add: nth_list_update)
  have new: "stored_at (?keys[?s := k]) k d"
    unfolding stored_at_def
  proof (intro conjI allI impI)
    show "?keys[?s := k] ! unat (?h + of_nat d) = k"
      by (simp add: upd)
    fix j assume "j < d"
    with d(2) have nz: "?keys ! unat (?h + of_nat j) \<noteq> 0" by simp
    with d(1) have "unat (?h + of_nat j) \<noteq> ?s" by auto
    with nz absent show "?keys[?s := k] ! unat (?h + of_nat j) \<noteq> 0"
      "?keys[?s := k] ! unat (?h + of_nat j) \<noteq> k"
      by (simp_all add: upd)
  qed
  have old: "\<exists>e. stored_at (?keys[?s := k]) k' e" if "k' \<in> K" for k'
  proof -
    from inv that have "\<exists>e. stored_at ?keys k' e" and k': "k' \<noteq> 0"
      unfolding probe_inv_def by blast+
    then obtain e where e: "stored_at ?keys k' e" by blast
    have "stored_at (?keys[?s := k]) k' e"
      unfolding stored_at_def
    proof (intro conjI allI impI)
      from e k' d(1) have "unat (get_rank_hash k' + of_nat e) \<noteq> ?s"
        by (auto simp: stored_at_def)
      with e show "?keys[?s := k] ! unat (get_rank_hash k' + of_nat e) = k'"
        by (simp add: upd stored_at_def)
      fix j assume "j < e"
      with e have nz: "?keys ! unat (get_rank_hash k' + of_nat j) \<noteq> 0"
        "?keys ! unat (get_rank_hash k' + of_nat j) \<noteq> k'"
        by (auto simp: stored_at_def)
      with d(1) have "unat (get_rank_hash k' + of_nat j) \<noteq> ?s" by auto
      with nz show "?keys[?s := k] ! unat (get_rank_hash k' + of_nat j) \<noteq> 0"
        "?keys[?s := k] ! unat (get_rank_hash k' + of_nat j) \<noteq> k'"
        by (simp_all add: upd)
    qed
    then show ?thesis ..
  qed
  have "probe_inv (?keys[?s := k]) (insert k K)"
    unfolding probe_inv_def
  proof (intro conjI allI impI ballI)
    show "length (?keys[?s := k]) = 65536" using lenk by simp
    show "0 \<notin> insert k K" using inv k by (auto simp: probe_inv_def)
    show "?keys[?s := k] ! i \<in> insert k K" if "i < 65536" "?keys[?s := k] ! i \<noteq> 0" for i
      using that inv by (auto simp: upd probe_inv_def split: if_splits)
    show "\<exists>e. stored_at (?keys[?s := k]) k' e" if "k' \<in> insert k K" for k'
      using that new old by auto
    show "i = j" if "i < 65536" "j < 65536"
      "?keys[?s := k] ! i = ?keys[?s := k] ! j \<and> ?keys[?s := k] ! i \<noteq> 0" for i j
      using that inv absent by (auto simp: upd probe_inv_def split: if_splits)
  qed
  with ins len show ?thesis by auto
qed

lemma insert_rank_old:
  assumes inv: "probe_inv (rank_keys T) K" and len: "length (rank_map T) = 65536"
    and k: "k \<in> K"
  shows "insert_rank k rs T = Some T"
proof -
  from inv k have "\<exists>d. stored_at (rank_keys T) k d" and nz: "k \<noteq> 0"
    unfolding probe_inv_def by blast+
  then obtain d where d: "stored_at (rank_keys T) k d" by blast
  from inv have "length (rank_keys T) = 65536" by (simp add: probe_inv_def)
  with probe_stored [OF d] d nz len show ?thesis
    by (simp add: insert_rank_def stored_at_def)
qed

section \<open>The enumeration as a list of insertions\<close>

lemma insert_all_append:
  "insert_all (xs @ ys) T =
     (case insert_all xs T of None \<Rightarrow> None | Some T' \<Rightarrow> insert_all ys T')"
  by (induction xs arbitrary: T) (auto split: option.splits)

lemma zero_counts: "[0, 0, 0, 0, 0, 0, 0, 0, 0, 0, 0, 0, 0] = replicate 13 (0::nat)"
  by (simp add: numeral_eq_Suc)

lemma canonicalize_snoc:
  assumes "fold canonicalize_step rs ([0, 0, 0, 0, 0, 0, 0, 0, 0, 0, 0, 0, 0], 0) = (cs, out)"
  shows "fold canonicalize_step (rs @ [x]) ([0, 0, 0, 0, 0, 0, 0, 0, 0, 0, 0, 0, 0], 0)
       = (cs[x := cs ! x + 1], out OR push_bit (x + 16 * SUIT_PERMUTATION ! (cs ! x)) 1)"
proof -
  have "fold canonicalize_step (rs @ [x]) ([0, 0, 0, 0, 0, 0, 0, 0, 0, 0, 0, 0, 0], 0)
      = canonicalize_step x (cs, out)"
    by (simp add: assms)
  also have "\<dots> = (cs[x := cs ! x + 1], out OR push_bit (x + 16 * SUIT_PERMUTATION ! (cs ! x)) 1)"
    by (simp add: canonicalize_step_def Let_def)
  finally show ?thesis .
qed

lemma canonicalize_counts:
  "length (fst (fold canonicalize_step rs ([0, 0, 0, 0, 0, 0, 0, 0, 0, 0, 0, 0, 0], 0))) = 13
   \<and> (r < 13 \<longrightarrow>
     fst (fold canonicalize_step rs ([0, 0, 0, 0, 0, 0, 0, 0, 0, 0, 0, 0, 0], 0)) ! r
       = count_list rs r)"
proof (induction rs rule: rev_induct)
  case Nil
  show ?case unfolding zero_counts by simp
next
  case (snoc x rs)
  obtain cs out where f: "fold canonicalize_step rs ([0, 0, 0, 0, 0, 0, 0, 0, 0, 0, 0, 0, 0], 0)
      = (cs, out)"
    by (cases "fold canonicalize_step rs ([0, 0, 0, 0, 0, 0, 0, 0, 0, 0, 0, 0, 0], 0)")
  from snoc have IH: "length cs = 13" "r < 13 \<longrightarrow> cs ! r = count_list rs r"
    unfolding f by simp_all
  show ?case
    unfolding canonicalize_snoc [OF f] using IH by (auto simp: nth_list_update)
qed

lemma key_of_snoc:
  assumes "r < 13"
  shows "key_of (rs @ [r])
       = key_of rs OR push_bit (r + 16 * SUIT_PERMUTATION ! count_list rs r) 1"
proof -
  obtain cs out where f: "fold canonicalize_step rs ([0, 0, 0, 0, 0, 0, 0, 0, 0, 0, 0, 0, 0], 0)
      = (cs, out)"
    by (cases "fold canonicalize_step rs ([0, 0, 0, 0, 0, 0, 0, 0, 0, 0, 0, 0, 0], 0)")
  from canonicalize_counts [of rs r] assms have "cs ! r = count_list rs r"
    unfolding f by simp
  then show ?thesis
    unfolding key_of_def canonicalize_snoc [OF f] f by simp
qed

lemma count_prefix:
  "n \<le> length xs \<Longrightarrow> length (filter (\<lambda>k. xs ! k = r) [0..<n]) = count_list (take n xs) r"
  by (induction n) (auto simp: take_Suc_conv_app_nth)

lemma gen_link:
  shows "length (fst st) = 7 \<Longrightarrow> depth \<le> 7 \<Longrightarrow> hand = key_of (take depth (fst st)) \<Longrightarrow>
     agrees depth (fst st) (generate_ranks_recursive depth start hand st)
       (insert_all (leaves depth start (take depth (fst st))) (snd st))"
    and "length (fst st) = 7 \<Longrightarrow> depth < 7 \<Longrightarrow> hand = key_of (take depth (fst st)) \<Longrightarrow>
     agrees depth (fst st) (generate_ranks_loop depth rank hand st)
       (insert_all (leaves_loop depth rank (take depth (fst st))) (snd st))"
proof (induction depth start hand st and depth rank hand st
    rule: generate_ranks_recursive_generate_ranks_loop.induct)
  case (1 depth start hand st)
  show ?case
  proof (cases "depth = 7")
    case True
    with 1(2,4) show ?thesis
      by (subst generate_ranks_recursive.simps, subst leaves.simps)
         (auto simp: agrees_def split: option.splits)
  next
    case False
    with 1(3) have d: "depth < 7" by simp
    with 1(1) [OF False] 1(2,4) have
      "agrees depth (fst st) (generate_ranks_loop depth start hand st)
         (insert_all (leaves_loop depth start (take depth (fst st))) (snd st))"
      by simp
    with d 1(2) show ?thesis
      by (subst generate_ranks_recursive.simps, subst leaves.simps) simp
  qed
next
  case (2 depth rank hand st)
  let ?cr = "fst st" and ?T = "snd st"
  have st: "st = (?cr, ?T)" by simp
  note len = \<open>length (fst st) = 7\<close>
  note d = \<open>depth < 7\<close>
  note hand = \<open>hand = key_of (take depth (fst st))\<close>
  from d have d': "\<not> 7 \<le> depth" by simp
  let ?count = "length (filter (\<lambda>k. ?cr ! k = rank) [0..<depth])"
  have cnt: "?count = count_list (take depth ?cr) rank"
    using d len by (simp add: count_prefix)
  show ?case
  proof (cases "rank > 12")
    case True
    have "\<exists>cr'. st = (cr', snd st) \<and> length cr' = 7 \<and> take depth cr' = take depth (fst st)"
      using len by (intro exI [of _ "fst st"]) simp
    with True show ?thesis
      by (subst generate_ranks_loop.simps, subst leaves_loop.simps)
         (simp add: agrees_def)
  next
    case r: False
    show ?thesis
    proof (cases "?count \<ge> 4")
      case True
      from 2(1) [OF r d' refl True len d hand] have
        "agrees depth ?cr (generate_ranks_loop depth (rank + 1) hand st)
           (insert_all (leaves_loop depth (rank + 1) (take depth ?cr)) ?T)" .
      with True r d cnt show ?thesis
        by (subst generate_ranks_loop.simps, subst leaves_loop.simps) simp
    next
      case c: False
      let ?card = "push_bit (rank + 16 * SUIT_PERMUTATION ! ?count) (1 :: 64 word)"
      let ?st1 = "(?cr[depth := rank], ?T)"
      have pre: "take (depth + 1) (?cr[depth := rank]) = take depth ?cr @ [rank]"
        using d len by (simp add: take_Suc_conv_app_nth)
      have h1: "hand OR ?card = key_of (take (depth + 1) (fst ?st1))"
        using r unfolding fst_conv pre hand cnt by (simp add: key_of_snoc)
      have "agrees (depth + 1) (fst ?st1)
          (generate_ranks_recursive (depth + 1) rank (hand OR ?card) ?st1)
          (insert_all (leaves (depth + 1) rank (take (depth + 1) (fst ?st1))) (snd ?st1))"
        by (rule 2(2) [OF r d' refl c refl _ _ h1]) (use len d in simp_all)
      then have rec: "agrees (depth + 1) (?cr[depth := rank])
          (generate_ranks_recursive (depth + 1) rank (hand OR ?card) ?st1)
          (insert_all (leaves (depth + 1) rank (take depth ?cr @ [rank])) ?T)"
        unfolding fst_conv snd_conv pre .
      have unfold_loop: "generate_ranks_loop depth rank hand st =
          (case generate_ranks_recursive (depth + 1) rank (hand OR ?card) ?st1 of
             None \<Rightarrow> None
           | Some st' \<Rightarrow> generate_ranks_loop depth (rank + 1) hand st')"
        using r d c by (subst generate_ranks_loop.simps) (simp add: Let_def)
      have unfold_leaves: "leaves_loop depth rank (take depth ?cr) =
          leaves (depth + 1) rank (take depth ?cr @ [rank])
            @ leaves_loop depth (rank + 1) (take depth ?cr)"
        using r d c cnt by (subst leaves_loop.simps) simp
      show ?thesis
      proof (cases "insert_all (leaves (depth + 1) rank (take depth ?cr @ [rank])) ?T")
        case None
        with rec show ?thesis
          unfolding unfold_loop by (simp add: unfold_leaves insert_all_append agrees_def)
      next
        case (Some T1)
        with rec obtain cr1 where
          g: "generate_ranks_recursive (depth + 1) rank (hand OR ?card) ?st1 = Some (cr1, T1)"
          and l1: "length cr1 = 7"
          and t1: "take (depth + 1) cr1 = take (depth + 1) (?cr[depth := rank])"
          by (auto simp: agrees_def)
        from t1 have "take depth (take (depth + 1) cr1)
            = take depth (take (depth + 1) (?cr[depth := rank]))"
          by simp
        then have t: "take depth cr1 = take depth ?cr"
          by (simp add: min_def)
        have "agrees depth (fst (cr1, T1)) (generate_ranks_loop depth (rank + 1) hand (cr1, T1))
             (insert_all (leaves_loop depth (rank + 1) (take depth (fst (cr1, T1)))) (snd (cr1, T1)))"
          by (rule 2(3) [OF r d' refl c refl g]) (use l1 d hand t in simp_all)
        then have "agrees depth cr1 (generate_ranks_loop depth (rank + 1) hand (cr1, T1))
             (insert_all (leaves_loop depth (rank + 1) (take depth ?cr)) T1)"
          by (simp add: t)
        with g Some t show ?thesis
          unfolding unfold_loop
          by (auto simp: unfold_leaves insert_all_append agrees_def split: option.splits)
      qed
    qed
  qed
qed

section \<open>The number of enumerated rank lists\<close>

lemma sum_above:
  "sum_list (map f (filter (\<lambda>r. s < r) ranks_up)) =
     ((if s < 0 then f 0 else 0) + ((if s < 1 then f 1 else 0) + ((if s < 2 then f 2 else 0) + ((if s < 3 then f 3 else 0) + ((if s < 4 then f 4 else 0) + ((if s < 5 then f 5 else 0) + ((if s < 6 then f 6 else 0) + ((if s < 7 then f 7 else 0) + ((if s < 8 then f 8 else 0) + ((if s < 9 then f 9 else 0) + ((if s < 10 then f 10 else 0) + ((if s < 11 then f 11 else 0) + ((if s < 12 then f 12 else (0::nat)) + 0)))))))))))))"
  unfolding sum_list_map_filter' ranks_up_def
  by (simp only: list.map sum_list.Cons sum_list.Nil)

lemma cnt_step:
  "cnt (Suc n) s c =
     (if s > 12 then 0
      else (if c \<ge> 4 then 0 else cnt n s (c + 1))
        + ((if s < 0 then cnt n 0 1 else 0) + ((if s < 1 then cnt n 1 1 else 0) + ((if s < 2 then cnt n 2 1 else 0) + ((if s < 3 then cnt n 3 1 else 0) + ((if s < 4 then cnt n 4 1 else 0) + ((if s < 5 then cnt n 5 1 else 0) + ((if s < 6 then cnt n 6 1 else 0) + ((if s < 7 then cnt n 7 1 else 0) + ((if s < 8 then cnt n 8 1 else 0) + ((if s < 9 then cnt n 9 1 else 0) + ((if s < 10 then cnt n 10 1 else 0) + ((if s < 11 then cnt n 11 1 else 0) + ((if s < 12 then cnt n 12 1 else (0::nat)) + 0))))))))))))))"
  by (simp only: cnt.simps(2) sum_above)

declare cnt.simps(2) [simp del]

lemma two_normal: "Suc (Suc 0) = 2"
  by simp

lemma cnt_level_1:
  "cnt (Suc 0) 0 (Suc 0) = 13"
  "cnt (Suc 0) 0 2 = 13"
  "cnt (Suc 0) 0 3 = 13"
  "cnt (Suc 0) 0 4 = 12"
  "cnt (Suc 0) (Suc 0) (Suc 0) = 12"
  "cnt (Suc 0) (Suc 0) 2 = 12"
  "cnt (Suc 0) (Suc 0) 3 = 12"
  "cnt (Suc 0) (Suc 0) 4 = 11"
  "cnt (Suc 0) 2 (Suc 0) = 11"
  "cnt (Suc 0) 2 2 = 11"
  "cnt (Suc 0) 2 3 = 11"
  "cnt (Suc 0) 2 4 = 10"
  "cnt (Suc 0) 3 (Suc 0) = 10"
  "cnt (Suc 0) 3 2 = 10"
  "cnt (Suc 0) 3 3 = 10"
  "cnt (Suc 0) 3 4 = 9"
  "cnt (Suc 0) 4 (Suc 0) = 9"
  "cnt (Suc 0) 4 2 = 9"
  "cnt (Suc 0) 4 3 = 9"
  "cnt (Suc 0) 4 4 = 8"
  "cnt (Suc 0) 5 (Suc 0) = 8"
  "cnt (Suc 0) 5 2 = 8"
  "cnt (Suc 0) 5 3 = 8"
  "cnt (Suc 0) 5 4 = 7"
  "cnt (Suc 0) 6 (Suc 0) = 7"
  "cnt (Suc 0) 6 2 = 7"
  "cnt (Suc 0) 6 3 = 7"
  "cnt (Suc 0) 6 4 = 6"
  "cnt (Suc 0) 7 (Suc 0) = 6"
  "cnt (Suc 0) 7 2 = 6"
  "cnt (Suc 0) 7 3 = 6"
  "cnt (Suc 0) 7 4 = 5"
  "cnt (Suc 0) 8 (Suc 0) = 5"
  "cnt (Suc 0) 8 2 = 5"
  "cnt (Suc 0) 8 3 = 5"
  "cnt (Suc 0) 8 4 = 4"
  "cnt (Suc 0) 9 (Suc 0) = 4"
  "cnt (Suc 0) 9 2 = 4"
  "cnt (Suc 0) 9 3 = 4"
  "cnt (Suc 0) 9 4 = 3"
  "cnt (Suc 0) 10 (Suc 0) = 3"
  "cnt (Suc 0) 10 2 = 3"
  "cnt (Suc 0) 10 3 = 3"
  "cnt (Suc 0) 10 4 = 2"
  "cnt (Suc 0) 11 (Suc 0) = 2"
  "cnt (Suc 0) 11 2 = 2"
  "cnt (Suc 0) 11 3 = 2"
  "cnt (Suc 0) 11 4 = 1"
  "cnt (Suc 0) 12 (Suc 0) = 1"
  "cnt (Suc 0) 12 2 = 1"
  "cnt (Suc 0) 12 3 = 1"
  "cnt (Suc 0) 12 4 = 0"
  unfolding cnt_step
  by (simp_all add: cnt.simps(1) two_normal)

lemma nat_2_Suc: "(2::nat) = Suc (Suc 0)"
  by simp

lemma cnt_level_2:
  "cnt 2 0 (Suc 0) = 91"
  "cnt 2 0 2 = 91"
  "cnt 2 0 3 = 90"
  "cnt 2 0 4 = 78"
  "cnt 2 (Suc 0) (Suc 0) = 78"
  "cnt 2 (Suc 0) 2 = 78"
  "cnt 2 (Suc 0) 3 = 77"
  "cnt 2 (Suc 0) 4 = 66"
  "cnt 2 2 (Suc 0) = 66"
  "cnt 2 2 2 = 66"
  "cnt 2 2 3 = 65"
  "cnt 2 2 4 = 55"
  "cnt 2 3 (Suc 0) = 55"
  "cnt 2 3 2 = 55"
  "cnt 2 3 3 = 54"
  "cnt 2 3 4 = 45"
  "cnt 2 4 (Suc 0) = 45"
  "cnt 2 4 2 = 45"
  "cnt 2 4 3 = 44"
  "cnt 2 4 4 = 36"
  "cnt 2 5 (Suc 0) = 36"
  "cnt 2 5 2 = 36"
  "cnt 2 5 3 = 35"
  "cnt 2 5 4 = 28"
  "cnt 2 6 (Suc 0) = 28"
  "cnt 2 6 2 = 28"
  "cnt 2 6 3 = 27"
  "cnt 2 6 4 = 21"
  "cnt 2 7 (Suc 0) = 21"
  "cnt 2 7 2 = 21"
  "cnt 2 7 3 = 20"
  "cnt 2 7 4 = 15"
  "cnt 2 8 (Suc 0) = 15"
  "cnt 2 8 2 = 15"
  "cnt 2 8 3 = 14"
  "cnt 2 8 4 = 10"
  "cnt 2 9 (Suc 0) = 10"
  "cnt 2 9 2 = 10"
  "cnt 2 9 3 = 9"
  "cnt 2 9 4 = 6"
  "cnt 2 10 (Suc 0) = 6"
  "cnt 2 10 2 = 6"
  "cnt 2 10 3 = 5"
  "cnt 2 10 4 = 3"
  "cnt 2 11 (Suc 0) = 3"
  "cnt 2 11 2 = 3"
  "cnt 2 11 3 = 2"
  "cnt 2 11 4 = 1"
  "cnt 2 12 (Suc 0) = 1"
  "cnt 2 12 2 = 1"
  "cnt 2 12 3 = 0"
  "cnt 2 12 4 = 0"
  unfolding nat_2_Suc cnt_step
  by (simp_all add: cnt_level_1 two_normal)

lemma nat_3_Suc: "(3::nat) = Suc 2"
  by simp

lemma cnt_level_3:
  "cnt 3 0 (Suc 0) = 455"
  "cnt 3 0 2 = 454"
  "cnt 3 0 3 = 442"
  "cnt 3 0 4 = 364"
  "cnt 3 (Suc 0) (Suc 0) = 364"
  "cnt 3 (Suc 0) 2 = 363"
  "cnt 3 (Suc 0) 3 = 352"
  "cnt 3 (Suc 0) 4 = 286"
  "cnt 3 2 (Suc 0) = 286"
  "cnt 3 2 2 = 285"
  "cnt 3 2 3 = 275"
  "cnt 3 2 4 = 220"
  "cnt 3 3 (Suc 0) = 220"
  "cnt 3 3 2 = 219"
  "cnt 3 3 3 = 210"
  "cnt 3 3 4 = 165"
  "cnt 3 4 (Suc 0) = 165"
  "cnt 3 4 2 = 164"
  "cnt 3 4 3 = 156"
  "cnt 3 4 4 = 120"
  "cnt 3 5 (Suc 0) = 120"
  "cnt 3 5 2 = 119"
  "cnt 3 5 3 = 112"
  "cnt 3 5 4 = 84"
  "cnt 3 6 (Suc 0) = 84"
  "cnt 3 6 2 = 83"
  "cnt 3 6 3 = 77"
  "cnt 3 6 4 = 56"
  "cnt 3 7 (Suc 0) = 56"
  "cnt 3 7 2 = 55"
  "cnt 3 7 3 = 50"
  "cnt 3 7 4 = 35"
  "cnt 3 8 (Suc 0) = 35"
  "cnt 3 8 2 = 34"
  "cnt 3 8 3 = 30"
  "cnt 3 8 4 = 20"
  "cnt 3 9 (Suc 0) = 20"
  "cnt 3 9 2 = 19"
  "cnt 3 9 3 = 16"
  "cnt 3 9 4 = 10"
  "cnt 3 10 (Suc 0) = 10"
  "cnt 3 10 2 = 9"
  "cnt 3 10 3 = 7"
  "cnt 3 10 4 = 4"
  "cnt 3 11 (Suc 0) = 4"
  "cnt 3 11 2 = 3"
  "cnt 3 11 3 = 2"
  "cnt 3 11 4 = 1"
  "cnt 3 12 (Suc 0) = 1"
  "cnt 3 12 2 = 0"
  "cnt 3 12 3 = 0"
  "cnt 3 12 4 = 0"
  unfolding nat_3_Suc cnt_step
  by (simp_all add: cnt_level_2 two_normal)

lemma nat_4_Suc: "(4::nat) = Suc 3"
  by simp

lemma cnt_level_4:
  "cnt 4 0 (Suc 0) = 1819"
  "cnt 4 0 2 = 1807"
  "cnt 4 0 3 = 1729"
  "cnt 4 0 4 = 1365"
  "cnt 4 (Suc 0) (Suc 0) = 1364"
  "cnt 4 (Suc 0) 2 = 1353"
  "cnt 4 (Suc 0) 3 = 1287"
  "cnt 4 (Suc 0) 4 = 1001"
  "cnt 4 2 (Suc 0) = 1000"
  "cnt 4 2 2 = 990"
  "cnt 4 2 3 = 935"
  "cnt 4 2 4 = 715"
  "cnt 4 3 (Suc 0) = 714"
  "cnt 4 3 2 = 705"
  "cnt 4 3 3 = 660"
  "cnt 4 3 4 = 495"
  "cnt 4 4 (Suc 0) = 494"
  "cnt 4 4 2 = 486"
  "cnt 4 4 3 = 450"
  "cnt 4 4 4 = 330"
  "cnt 4 5 (Suc 0) = 329"
  "cnt 4 5 2 = 322"
  "cnt 4 5 3 = 294"
  "cnt 4 5 4 = 210"
  "cnt 4 6 (Suc 0) = 209"
  "cnt 4 6 2 = 203"
  "cnt 4 6 3 = 182"
  "cnt 4 6 4 = 126"
  "cnt 4 7 (Suc 0) = 125"
  "cnt 4 7 2 = 120"
  "cnt 4 7 3 = 105"
  "cnt 4 7 4 = 70"
  "cnt 4 8 (Suc 0) = 69"
  "cnt 4 8 2 = 65"
  "cnt 4 8 3 = 55"
  "cnt 4 8 4 = 35"
  "cnt 4 9 (Suc 0) = 34"
  "cnt 4 9 2 = 31"
  "cnt 4 9 3 = 25"
  "cnt 4 9 4 = 15"
  "cnt 4 10 (Suc 0) = 14"
  "cnt 4 10 2 = 12"
  "cnt 4 10 3 = 9"
  "cnt 4 10 4 = 5"
  "cnt 4 11 (Suc 0) = 4"
  "cnt 4 11 2 = 3"
  "cnt 4 11 3 = 2"
  "cnt 4 11 4 = 1"
  "cnt 4 12 (Suc 0) = 0"
  "cnt 4 12 2 = 0"
  "cnt 4 12 3 = 0"
  "cnt 4 12 4 = 0"
  unfolding nat_4_Suc cnt_step
  by (simp_all add: cnt_level_3 two_normal)

lemma nat_5_Suc: "(5::nat) = Suc 4"
  by simp

lemma cnt_level_5:
  "cnt 5 0 (Suc 0) = 6163"
  "cnt 5 0 2 = 6085"
  "cnt 5 0 3 = 5721"
  "cnt 5 0 4 = 4356"
  "cnt 5 (Suc 0) (Suc 0) = 4345"
  "cnt 5 (Suc 0) 2 = 4279"
  "cnt 5 (Suc 0) 3 = 3993"
  "cnt 5 (Suc 0) 4 = 2992"
  "cnt 5 2 (Suc 0) = 2982"
  "cnt 5 2 2 = 2927"
  "cnt 5 2 3 = 2707"
  "cnt 5 2 4 = 1992"
  "cnt 5 3 (Suc 0) = 1983"
  "cnt 5 3 2 = 1938"
  "cnt 5 3 3 = 1773"
  "cnt 5 3 4 = 1278"
  "cnt 5 4 (Suc 0) = 1270"
  "cnt 5 4 2 = 1234"
  "cnt 5 4 3 = 1114"
  "cnt 5 4 4 = 784"
  "cnt 5 5 (Suc 0) = 777"
  "cnt 5 5 2 = 749"
  "cnt 5 5 3 = 665"
  "cnt 5 5 4 = 455"
  "cnt 5 6 (Suc 0) = 449"
  "cnt 5 6 2 = 428"
  "cnt 5 6 3 = 372"
  "cnt 5 6 4 = 246"
  "cnt 5 7 (Suc 0) = 241"
  "cnt 5 7 2 = 226"
  "cnt 5 7 3 = 191"
  "cnt 5 7 4 = 121"
  "cnt 5 8 (Suc 0) = 117"
  "cnt 5 8 2 = 107"
  "cnt 5 8 3 = 87"
  "cnt 5 8 4 = 52"
  "cnt 5 9 (Suc 0) = 49"
  "cnt 5 9 2 = 43"
  "cnt 5 9 3 = 33"
  "cnt 5 9 4 = 18"
  "cnt 5 10 (Suc 0) = 16"
  "cnt 5 10 2 = 13"
  "cnt 5 10 3 = 9"
  "cnt 5 10 4 = 4"
  "cnt 5 11 (Suc 0) = 3"
  "cnt 5 11 2 = 2"
  "cnt 5 11 3 = 1"
  "cnt 5 11 4 = 0"
  "cnt 5 12 (Suc 0) = 0"
  "cnt 5 12 2 = 0"
  "cnt 5 12 3 = 0"
  "cnt 5 12 4 = 0"
  unfolding nat_5_Suc cnt_step
  by (simp_all add: cnt_level_4 two_normal)

lemma nat_6_Suc: "(6::nat) = Suc 5"
  by simp

lemma cnt_level_6:
  "cnt 6 0 (Suc 0) = 18317"
  "cnt 6 0 2 = 17953"
  "cnt 6 0 3 = 16588"
  "cnt 6 0 4 = 12232"
  "cnt 6 (Suc 0) (Suc 0) = 12166"
  "cnt 6 (Suc 0) 2 = 11880"
  "cnt 6 (Suc 0) 3 = 10879"
  "cnt 6 (Suc 0) 4 = 7887"
  "cnt 6 2 (Suc 0) = 7832"
  "cnt 6 2 2 = 7612"
  "cnt 6 2 3 = 6897"
  "cnt 6 2 4 = 4905"
  "cnt 6 3 (Suc 0) = 4860"
  "cnt 6 3 2 = 4695"
  "cnt 6 3 3 = 4200"
  "cnt 6 3 4 = 2922"
  "cnt 6 4 (Suc 0) = 2886"
  "cnt 6 4 2 = 2766"
  "cnt 6 4 3 = 2436"
  "cnt 6 4 4 = 1652"
  "cnt 6 5 (Suc 0) = 1624"
  "cnt 6 5 2 = 1540"
  "cnt 6 5 3 = 1330"
  "cnt 6 5 4 = 875"
  "cnt 6 6 (Suc 0) = 854"
  "cnt 6 6 2 = 798"
  "cnt 6 6 3 = 672"
  "cnt 6 6 4 = 426"
  "cnt 6 7 (Suc 0) = 411"
  "cnt 6 7 2 = 376"
  "cnt 6 7 3 = 306"
  "cnt 6 7 4 = 185"
  "cnt 6 8 (Suc 0) = 175"
  "cnt 6 8 2 = 155"
  "cnt 6 8 3 = 120"
  "cnt 6 8 4 = 68"
  "cnt 6 9 (Suc 0) = 62"
  "cnt 6 9 2 = 52"
  "cnt 6 9 3 = 37"
  "cnt 6 9 4 = 19"
  "cnt 6 10 (Suc 0) = 16"
  "cnt 6 10 2 = 12"
  "cnt 6 10 3 = 7"
  "cnt 6 10 4 = 3"
  "cnt 6 11 (Suc 0) = 2"
  "cnt 6 11 2 = 1"
  "cnt 6 11 3 = 0"
  "cnt 6 11 4 = 0"
  "cnt 6 12 (Suc 0) = 0"
  "cnt 6 12 2 = 0"
  "cnt 6 12 3 = 0"
  "cnt 6 12 4 = 0"
  unfolding nat_6_Suc cnt_step
  by (simp_all add: cnt_level_5 two_normal)

lemma nat_7_Suc: "(7::nat) = Suc 6"
  by simp

lemma cnt_total:
  "cnt 7 0 0 = 49205"
  unfolding nat_7_Suc cnt_step
  by (simp add: cnt_level_6 two_normal)

lemma leaves_sound:
  shows "length prefix = depth \<Longrightarrow> sorted prefix \<Longrightarrow> \<forall>x\<in>set prefix. x \<le> start \<and> x < 13
      \<Longrightarrow> \<forall>r. count_list prefix r \<le> 4
      \<Longrightarrow> \<forall>rs\<in>set (leaves depth start prefix). valid_ranks rs"
    and "length prefix = depth \<Longrightarrow> sorted prefix \<Longrightarrow> \<forall>x\<in>set prefix. x \<le> rank \<and> x < 13
      \<Longrightarrow> \<forall>r. count_list prefix r \<le> 4
      \<Longrightarrow> \<forall>rs\<in>set (leaves_loop depth rank prefix). valid_ranks rs"
proof (induction depth start prefix and depth rank prefix rule: leaves_leaves_loop.induct)
  case (1 depth start prefix)
  show ?case
  proof (cases "depth = 7")
    case True
    with 1(2-5) show ?thesis
      by (subst leaves.simps) (simp add: valid_ranks_def)
  next
    case False
    show ?thesis
    proof (cases "depth > 7")
      case True
      then show ?thesis by (subst leaves.simps) simp
    next
      case d: False
      from 1(1) [OF False d 1(2-5)] False d show ?thesis
        by (subst leaves.simps) simp
    qed
  qed
next
  case (2 depth rank prefix)
  show ?case
  proof (cases "rank > 12 \<or> depth \<ge> 7")
    case True
    then show ?thesis by (subst leaves_loop.simps) auto
  next
    case False
    then have r: "\<not> 12 < rank" and d: "\<not> 7 \<le> depth" by simp_all
    have up: "\<forall>x\<in>set prefix. x \<le> rank + 1 \<and> x < 13"
      using 2(6) by auto
    show ?thesis
    proof (cases "4 \<le> count_list prefix rank")
      case True
      from 2(1) [OF r d True 2(4,5) up 2(7)] True r d show ?thesis
        by (subst leaves_loop.simps) simp
    next
      case c: False
      have "\<forall>rs\<in>set (leaves (depth + 1) rank (prefix @ [rank])). valid_ranks rs"
      proof (rule 2(2) [OF r d c])
        show "length (prefix @ [rank]) = depth + 1" using 2(4) by simp
        show "sorted (prefix @ [rank])" using 2(5,6) by (auto simp: sorted_append)
        show "\<forall>x\<in>set (prefix @ [rank]). x \<le> rank \<and> x < 13" using 2(6) r by auto
        show "\<forall>r. count_list (prefix @ [rank]) r \<le> 4" using 2(7) c by auto
      qed
      moreover from 2(3) [OF r d c 2(4,5) up 2(7)]
      have "\<forall>rs\<in>set (leaves_loop depth (rank + 1) prefix). valid_ranks rs" .
      ultimately show ?thesis
        using r d c by (subst leaves_loop.simps) auto
    qed
  qed
qed

lemma leaves_complete:
  shows "length prefix = depth \<Longrightarrow> length (prefix @ suffix) = 7 \<Longrightarrow> sorted suffix
      \<Longrightarrow> \<forall>x\<in>set suffix. start \<le> x \<and> x < 13
      \<Longrightarrow> \<forall>r. count_list (prefix @ suffix) r \<le> 4
      \<Longrightarrow> prefix @ suffix \<in> set (leaves depth start prefix)"
    and "length prefix = depth \<Longrightarrow> depth < 7 \<Longrightarrow> length (prefix @ suffix) = 7 \<Longrightarrow> sorted suffix
      \<Longrightarrow> \<forall>x\<in>set suffix. rank \<le> x \<and> x < 13
      \<Longrightarrow> \<forall>r. count_list (prefix @ suffix) r \<le> 4
      \<Longrightarrow> prefix @ suffix \<in> set (leaves_loop depth rank prefix)"
proof (induction depth start prefix and depth rank prefix arbitrary: suffix and suffix
    rule: leaves_leaves_loop.induct)
  case (1 depth start prefix)
  show ?case
  proof (cases "depth = 7")
    case True
    with 1(2,3) have "suffix = []" by simp
    with True show ?thesis by (subst leaves.simps) simp
  next
    case False
    with 1(2,3) have d: "depth < 7" by simp
    then have "\<not> 7 < depth" by simp
    from 1(1) [OF False this 1(2) d 1(3-6)] False d show ?thesis
      by (subst leaves.simps) simp
  qed
next
  case (2 depth rank prefix)
  from 2(4,5,6) obtain x xs where suffix: "suffix = x # xs"
    by (cases suffix) auto
  with 2(8) have x: "rank \<le> x" "x < 13" by simp_all
  then have r: "\<not> 12 < rank" by simp
  from 2(5) have d: "\<not> 7 \<le> depth" by simp
  show ?case
  proof (cases "x = rank")
    case True
    have "count_list (prefix @ suffix) rank \<le> 4" using 2(9) by blast
    then have c: "\<not> 4 \<le> count_list prefix rank"
      by (simp add: suffix True)
    have "(prefix @ [rank]) @ xs \<in> set (leaves (depth + 1) rank (prefix @ [rank]))"
    proof (rule 2(2) [OF r d c])
      show "length (prefix @ [rank]) = depth + 1" using 2(4) by simp
      show "length ((prefix @ [rank]) @ xs) = 7" using 2(6) by (simp add: suffix)
      show "sorted xs" using 2(7) by (simp add: suffix)
      show "\<forall>x\<in>set xs. rank \<le> x \<and> x < 13"
        using 2(7,8) by (auto simp: suffix True)
      show "\<forall>r. count_list ((prefix @ [rank]) @ xs) r \<le> 4"
        using 2(9) by (simp add: suffix True)
    qed
    then show ?thesis
      using r d c by (subst leaves_loop.simps) (simp add: suffix True)
  next
    case False
    with x have "rank + 1 \<le> x" by simp
    with 2(7,8) have up: "\<forall>y\<in>set suffix. rank + 1 \<le> y \<and> y < 13"
      by (auto simp: suffix)
    show ?thesis
    proof (cases "4 \<le> count_list prefix rank")
      case True
      from 2(1) [OF r d True 2(4,5,6,7) up 2(9)] True r d show ?thesis
        by (subst leaves_loop.simps) simp
    next
      case c: False
      from 2(3) [OF r d c 2(4,5,6,7) up 2(9)] r d c show ?thesis
        by (subst leaves_loop.simps) simp
    qed
  qed
qed

lemma count_list_zero: "\<forall>x\<in>set xs. x \<noteq> r \<Longrightarrow> count_list xs r = 0"
  by (induction xs) auto

lemma ranks_above: "s \<le> 12 \<Longrightarrow> filter (\<lambda>r. s < r) ranks_up = [s + 1..<13]"
proof -
  assume s: "s \<le> 12"
  have "ranks_up = [0..<13]"
    by (simp add: ranks_up_def upt_rec)
  also have "\<dots> = [0..<s + 1] @ [s + 1..<13]"
    using s upt_add_eq_append [of 0 "s + 1" "12 - s"] by simp
  finally have e: "ranks_up = [0..<s + 1] @ [s + 1..<13]" .
  have f1: "filter (\<lambda>r. s < r) [0..<s + 1] = []"
    by (rule filter_False) simp
  have f2: "filter (\<lambda>r. s < r) [s + 1..<13] = [s + 1..<13]"
    by (rule filter_True) simp
  show ?thesis
    unfolding e filter_append f1 f2 by (rule append_Nil)
qed

lemma cnt_Suc:
  "cnt (Suc n) s c =
     (if s > 12 then 0
      else (if c \<ge> 4 then 0 else cnt n s (c + 1))
           + sum_list (map (\<lambda>r. cnt n r 1) [s + 1..<13]))"
  by (simp add: cnt.simps(2) ranks_above)

lemma cnt_Suc_fresh: "cnt (Suc n) s 0 = sum_list (map (\<lambda>r. cnt n r 1) [s..<13])"
proof (cases "s > 12")
  case True
  then show ?thesis by (simp add: cnt_Suc)
next
  case False
  then have "[s..<13] = s # [s + 1..<13]" by (simp add: upt_rec)
  with False show ?thesis by (simp add: cnt_Suc)
qed

lemma leaves_length:
  shows "depth \<le> 7 \<Longrightarrow> \<forall>x\<in>set prefix. x \<le> start
      \<Longrightarrow> length (leaves depth start prefix) = cnt (7 - depth) start (count_list prefix start)"
    and "depth < 7 \<Longrightarrow> \<forall>x\<in>set prefix. x \<le> rank
      \<Longrightarrow> length (leaves_loop depth rank prefix)
        = cnt (7 - depth) rank (count_list prefix rank)"
proof (induction depth start prefix and depth rank prefix rule: leaves_leaves_loop.induct)
  case (1 depth start prefix)
  show ?case
  proof (cases "depth = 7")
    case True
    then show ?thesis by (subst leaves.simps) simp
  next
    case False
    with 1(2) have d: "depth < 7" by simp
    then have d': "\<not> 7 < depth" by simp
    from 1(1) [OF False d' d 1(3)] False d' show ?thesis
      by (subst leaves.simps) simp
  qed
next
  case (2 depth rank prefix)
  from 2(4) obtain n where n: "7 - depth = Suc n" "6 - depth = n"
    by (cases "7 - depth") auto
  from 2(4) have d: "\<not> 7 \<le> depth" by simp
  show ?case
  proof (cases "12 < rank")
    case True
    then show ?thesis by (subst leaves_loop.simps) (simp add: n cnt_Suc)
  next
    case r: False
    have up: "\<forall>x\<in>set prefix. x \<le> rank + 1" using 2(5) by auto
    have "\<forall>x\<in>set prefix. x \<noteq> rank + 1" using 2(5) by auto
    then have zero: "count_list prefix (rank + 1) = 0" by (rule count_list_zero)
    show ?thesis
    proof (cases "4 \<le> count_list prefix rank")
      case True
      from 2(1) [OF r d True 2(4) up]
      have "length (leaves_loop depth (rank + 1) prefix)
          = sum_list (map (\<lambda>r. cnt n r 1) [rank + 1..<13])"
        by (simp only: n zero cnt_Suc_fresh)
      with r d True show ?thesis
        by (subst leaves_loop.simps) (simp add: n cnt_Suc)
    next
      case c: False
      from 2(3) [OF r d c 2(4) up]
      have a: "length (leaves_loop depth (rank + 1) prefix)
          = sum_list (map (\<lambda>r. cnt n r 1) [rank + 1..<13])"
        by (simp only: n zero cnt_Suc_fresh)
      have "depth + 1 \<le> 7" using 2(4) by simp
      moreover have "\<forall>x\<in>set (prefix @ [rank]). x \<le> rank" using 2(5) by simp
      ultimately have b: "length (leaves (depth + 1) rank (prefix @ [rank]))
          = cnt n rank (count_list prefix rank + 1)"
        using 2(2) [OF r d c] by (simp add: n)
      from r d c a b show ?thesis
        by (subst leaves_loop.simps) (simp add: n cnt_Suc)
    qed
  qed
qed

lemma leaves_total: "length (leaves 0 0 []) = 49205"
  using leaves_length(1) [of 0 "[]" 0] by (simp add: cnt_total)

lemma leaves_prefix:
  shows "length prefix = depth \<Longrightarrow> \<forall>rs\<in>set (leaves depth start prefix). take depth rs = prefix"
    and "length prefix = depth \<Longrightarrow>
      \<forall>rs\<in>set (leaves_loop depth rank prefix). take depth rs = prefix \<and> rank \<le> rs ! depth"
proof (induction depth start prefix and depth rank prefix rule: leaves_leaves_loop.induct)
  case (1 depth start prefix)
  show ?case
  proof (cases "depth = 7")
    case True
    with 1(2) show ?thesis by (subst leaves.simps) simp
  next
    case False
    show ?thesis
    proof (cases "depth > 7")
      case True
      then show ?thesis by (subst leaves.simps) simp
    next
      case d: False
      from 1(1) [OF False d 1(2)] False d show ?thesis
        by (subst leaves.simps) simp
    qed
  qed
next
  case (2 depth rank prefix)
  show ?case
  proof (cases "rank > 12 \<or> depth \<ge> 7")
    case True
    then show ?thesis by (subst leaves_loop.simps) auto
  next
    case False
    then have r: "\<not> 12 < rank" and d: "\<not> 7 \<le> depth" by simp_all
    show ?thesis
    proof (cases "4 \<le> count_list prefix rank")
      case True
      from 2(1) [OF r d True 2(4)] have
        "\<forall>rs\<in>set (leaves_loop depth (rank + 1) prefix). take depth rs = prefix \<and> rank \<le> rs ! depth"
        by auto
      with True r d show ?thesis
        by (subst leaves_loop.simps) simp
    next
      case c: False
      have len: "length (prefix @ [rank]) = depth + 1" using 2(4) by simp
      have a: "take depth rs = prefix \<and> rank \<le> rs ! depth"
        if "rs \<in> set (leaves (depth + 1) rank (prefix @ [rank]))" for rs
      proof -
        from 2(2) [OF r d c len] that have t: "take (depth + 1) rs = prefix @ [rank]" by blast
        then have "take depth (take (depth + 1) rs) = prefix" using 2(4) by simp
        then have "take depth rs = prefix" by simp
        moreover have "(prefix @ [rank]) ! depth = rank"
          using 2(4) by (simp add: nth_append)
        then have "take (depth + 1) rs ! depth = rank" by (simp only: t)
        then have "rs ! depth = rank" by simp
        ultimately show ?thesis by simp
      qed
      from 2(3) [OF r d c 2(4)] have b:
        "\<forall>rs\<in>set (leaves_loop depth (rank + 1) prefix). take depth rs = prefix \<and> rank \<le> rs ! depth"
        by auto
      from a b r d c show ?thesis
        by (subst leaves_loop.simps) auto
    qed
  qed
qed

lemma leaves_distinct:
  shows "length prefix = depth \<Longrightarrow> distinct (leaves depth start prefix)"
    and "length prefix = depth \<Longrightarrow> distinct (leaves_loop depth rank prefix)"
proof (induction depth start prefix and depth rank prefix rule: leaves_leaves_loop.induct)
  case (1 depth start prefix)
  show ?case
  proof (cases "depth = 7")
    case True
    then show ?thesis by (subst leaves.simps) simp
  next
    case False
    show ?thesis
    proof (cases "depth > 7")
      case True
      then show ?thesis by (subst leaves.simps) simp
    next
      case d: False
      from 1(1) [OF False d 1(2)] False d show ?thesis
        by (subst leaves.simps) simp
    qed
  qed
next
  case (2 depth rank prefix)
  show ?case
  proof (cases "rank > 12 \<or> depth \<ge> 7")
    case True
    then show ?thesis by (subst leaves_loop.simps) auto
  next
    case False
    then have r: "\<not> 12 < rank" and d: "\<not> 7 \<le> depth" by simp_all
    show ?thesis
    proof (cases "4 \<le> count_list prefix rank")
      case True
      from 2(1) [OF r d True 2(4)] True r d show ?thesis
        by (subst leaves_loop.simps) simp
    next
      case c: False
      have len: "length (prefix @ [rank]) = depth + 1" using 2(4) by simp
      have a: "distinct (leaves (depth + 1) rank (prefix @ [rank]))"
        by (rule 2(2) [OF r d c len])
      have b: "distinct (leaves_loop depth (rank + 1) prefix)"
        by (rule 2(3) [OF r d c 2(4)])
      have "rs \<notin> set (leaves_loop depth (rank + 1) prefix)"
        if "rs \<in> set (leaves (depth + 1) rank (prefix @ [rank]))" for rs
      proof
        assume in2: "rs \<in> set (leaves_loop depth (rank + 1) prefix)"
        from leaves_prefix(1) [OF len] that
        have t: "take (depth + 1) rs = prefix @ [rank]" by blast
        have "(prefix @ [rank]) ! depth = rank"
          using 2(4) by (simp add: nth_append)
        then have "take (depth + 1) rs ! depth = rank" by (simp only: t)
        then have "rs ! depth = rank" by simp
        moreover from leaves_prefix(2) [OF 2(4)] in2 have "rank + 1 \<le> rs ! depth" by blast
        ultimately show False by simp
      qed
      then have "set (leaves (depth + 1) rank (prefix @ [rank]))
          \<inter> set (leaves_loop depth (rank + 1) prefix) = {}" by blast
      with a b r d c show ?thesis
        by (subst leaves_loop.simps) simp
    qed
  qed
qed

lemma valid_ranks_leaves: "valid_ranks rs \<longleftrightarrow> rs \<in> set (leaves 0 0 [])"
proof
  assume "valid_ranks rs"
  then show "rs \<in> set (leaves 0 0 [])"
    using leaves_complete(1) [of "[]" 0 rs 0] by (simp add: valid_ranks_def)
next
  assume "rs \<in> set (leaves 0 0 [])"
  then show "valid_ranks rs"
    using leaves_sound(1) [of "[]" 0 0] by simp
qed

lemma card_valid_ranks: "card {rs. valid_ranks rs} = 49205"
proof -
  have "{rs. valid_ranks rs} = set (leaves 0 0 [])"
    by (auto simp: valid_ranks_leaves)
  then show ?thesis
    using leaves_distinct(1) [of "[]" 0 0] by (simp add: distinct_card leaves_total)
qed

section \<open>Every enumerated rank list has a score\<close>

lemma groups_inv_step:
  assumes "groups_inv c S g" "i < 13"
  shows "groups_inv c (insert i S) (find_groups_step c i g)"
proof -
  obtain q t hp lp where g: "g = (q, t, hp, lp)" by (cases g)
  consider "c ! i = 4" | "c ! i = 3" | "c ! i = 2" | "c ! i \<noteq> 4 \<and> c ! i \<noteq> 3 \<and> c ! i \<noteq> 2"
    by blast
  then show ?thesis
  proof cases
    case 1
    with assms show ?thesis
      unfolding g groups_inv_def find_groups_step_def by simp
  next
    case 2
    with assms show ?thesis
      unfolding g groups_inv_def find_groups_step_def by auto
  next
    case 3
    with assms show ?thesis
      unfolding g groups_inv_def find_groups_step_def by auto
  next
    case 4
    with assms show ?thesis
      unfolding g groups_inv_def find_groups_step_def by simp
  qed
qed

lemma groups_inv_fold:
  "groups_inv c S g \<Longrightarrow> \<forall>i\<in>set xs. i < 13
     \<Longrightarrow> groups_inv c (S \<union> set xs) (fold (find_groups_step c) xs g)"
proof (induction xs arbitrary: S g)
  case Nil
  then show ?case by simp
next
  case (Cons x xs)
  from groups_inv_step [OF Cons(2), of x] Cons(3)
  have "groups_inv c (insert x S) (find_groups_step c x g)" by simp
  from Cons(1) [OF this] Cons(3) show ?case by simp
qed

lemma ranks_down_rev: "ranks_down = rev [0..<13]"
  by (simp add: ranks_down_def upt_rec)

lemma set_ranks_down: "set ranks_down = {0..<13}"
  by (simp only: ranks_down_rev set_rev set_upt)

lemma distinct_ranks_down: "distinct ranks_down"
  by (simp only: ranks_down_rev distinct_rev distinct_upt)

lemma find_groups_inv: "groups_inv c {0..<13} (find_groups c)"
proof -
  have "groups_inv c {} (-1, -1, -1, -1)"
    by (simp add: groups_inv_def)
  from groups_inv_fold [OF this, of ranks_down]
  show ?thesis
    by (simp add: find_groups_def set_ranks_down)
qed

lemma histogram_snoc:
  assumes "fold histogram_step rs ([0, 0, 0, 0, 0, 0, 0, 0, 0, 0, 0, 0, 0], 0) = (cs, m)"
  shows "fold histogram_step (rs @ [x]) ([0, 0, 0, 0, 0, 0, 0, 0, 0, 0, 0, 0, 0], 0)
       = (cs[x := cs ! x + 1], m OR push_bit x 1)"
  by (simp add: assms histogram_step_def)

lemma histogram_counts:
  "length (fst (fold histogram_step rs ([0, 0, 0, 0, 0, 0, 0, 0, 0, 0, 0, 0, 0], 0))) = 13
   \<and> (r < 13 \<longrightarrow>
     fst (fold histogram_step rs ([0, 0, 0, 0, 0, 0, 0, 0, 0, 0, 0, 0, 0], 0)) ! r
       = count_list rs r)"
proof (induction rs rule: rev_induct)
  case Nil
  show ?case unfolding zero_counts by simp
next
  case (snoc x rs)
  obtain cs m where f: "fold histogram_step rs ([0, 0, 0, 0, 0, 0, 0, 0, 0, 0, 0, 0, 0], 0)
      = (cs, m)"
    by (cases "fold histogram_step rs ([0, 0, 0, 0, 0, 0, 0, 0, 0, 0, 0, 0, 0], 0)")
  from snoc have IH: "length cs = 13" "r < 13 \<longrightarrow> cs ! r = count_list rs r"
    unfolding f by simp_all
  show ?case
    unfolding histogram_snoc [OF f] using IH by (auto simp: nth_list_update)
qed

lemma held_bound:
  "\<forall>i\<in>set xs. \<not> G i \<longrightarrow> f i \<le> (1::nat) \<Longrightarrow>
     sum_list (map f xs)
       \<le> length (filter (\<lambda>i. 0 < f i \<and> \<not> G i) xs) + sum_list (map f (filter G xs))"
  by (induction xs) auto

lemma sum_counts:
  assumes "\<forall>x\<in>set rs. x < 13"
  shows "sum_list (map (count_list rs) ranks_down) = length rs"
proof -
  have "sum_list (map (count_list rs) ranks_down) = sum (count_list rs) {0..<13}"
    using sum_list_distinct_conv_sum_set [OF distinct_ranks_down, of "count_list rs"]
    by (simp only: set_ranks_down)
  also have "\<dots> = length rs"
    using assms by (intro sum_count_set) auto
  finally show ?thesis .
qed

lemma sum_single:
  assumes "i < 13"
  shows "sum_list (map f (filter (\<lambda>j. int j \<in> set [int i]) ranks_down)) = (f i :: nat)"
proof -
  have "distinct (filter (\<lambda>j. int j \<in> set [int i]) ranks_down)"
    using distinct_ranks_down by simp
  then have "sum_list (map f (filter (\<lambda>j. int j \<in> set [int i]) ranks_down))
      = sum f (set (filter (\<lambda>j. int j \<in> set [int i]) ranks_down))"
    by (rule sum_list_distinct_conv_sum_set)
  also have "set (filter (\<lambda>j. int j \<in> set [int i]) ranks_down) = {i}"
    using assms by (auto simp: set_ranks_down)
  finally show ?thesis by simp
qed

lemma held_members: "n < length (held_except c gs) \<Longrightarrow> held_except c gs ! n < 13"
proof -
  assume "n < length (held_except c gs)"
  then have "held_except c gs ! n \<in> set (held_except c gs)" by (rule nth_mem)
  then have "held_except c gs ! n \<in> set ranks_down"
    unfolding held_except_def by simp
  then show ?thesis by (simp add: set_ranks_down)
qed

lemma nCk_some: "0 \<le> n \<Longrightarrow> n < 13 \<Longrightarrow> k < 6 \<Longrightarrow> \<exists>v. nCk n k = Some v"
  by (simp add: nCk_def)

lemma normalize_range:
  "0 \<le> k \<Longrightarrow> k < 13 \<Longrightarrow> 0 \<le> g \<Longrightarrow>
     0 \<le> normalize_kicker k g \<and> normalize_kicker k g < 13"
  by (simp add: normalize_kicker_def)

lemma kicker_range:
  "n < length (held_except c gs) \<Longrightarrow>
     0 \<le> kicker_at (held_except c gs) n \<and> kicker_at (held_except c gs) n < 13"
  using held_members [of n c gs] by (simp add: kicker_at_def)

lemma calculate_rank_strength_total:
  assumes len: "length rs = 7" and rng: "\<forall>x\<in>set rs. x < 13"
    and le4: "\<forall>r. count_list rs r \<le> 4"
  shows "\<exists>v. calculate_rank_strength rs = Some v"
proof -
  obtain c m where h: "histogram rs = (c, m)" by (cases "histogram rs")
  obtain q t hp lp where g: "find_groups c = (q, t, hp, lp)"
    by (cases "find_groups c") auto
  have take: "take 7 rs = rs" using len by simp
  have c: "\<And>i. i < 13 \<Longrightarrow> c ! i = count_list rs i"
    using histogram_counts [of rs] h unfolding histogram_def take by simp
  have c4: "\<And>i. i < 13 \<Longrightarrow> c ! i \<le> 4"
    using c le4 by simp
  have same: "map ((!) c) ranks_down = map (count_list rs) ranks_down"
    by (rule map_cong) (simp_all add: set_ranks_down c)
  have total: "sum_list (map ((!) c) ranks_down) = 7"
    unfolding same sum_counts [OF rng] by (rule len)
  have inv: "groups_inv c {0..<13} (q, t, hp, lp)"
    using find_groups_inv [of c] unfolding g .
  have guard: "\<not> (length rs < 7 \<or> (\<exists>r\<in>set (take 7 rs). 13 \<le> r))"
    using len rng unfolding take by auto
  have low: "c ! i \<le> 1" if "i < 13" "c ! i \<noteq> 2" "c ! i \<noteq> 3" "c ! i \<noteq> 4" for i
    using c4 [OF that(1)] that(2-4) by arith
  note unfold = calculate_rank_strength_def h g prod.case if_not_P [OF guard]
  show ?thesis
  proof (cases "q \<noteq> -1")
    case True
    then show ?thesis unfolding unfold by (simp add: Let_def)
  next
    case q: False
    show ?thesis
    proof (cases "t \<noteq> -1 \<and> hp \<noteq> -1")
      case True
      with q show ?thesis unfolding unfold by simp
    next
      case fh: False
      show ?thesis
      proof (cases "straight_scan m")
        case (Some i)
        with q fh show ?thesis unfolding unfold by simp
      next
        case None
        show ?thesis
        proof (cases "is_wheel m")
          case True
          with q fh None show ?thesis unfolding unfold by simp
        next
          case w: False
          show ?thesis
          proof (cases "t \<noteq> -1")
            case True
            with fh have hp: "hp = -1" by simp
            from inv True have t: "0 \<le> t" "t < 13" "c ! nat t = 3"
              unfolding groups_inv_def by simp_all
            have others: "\<forall>i\<in>set ranks_down. \<not> int i \<in> set [t] \<longrightarrow> c ! i \<le> 1"
            proof (intro ballI impI)
              fix i assume i: "i \<in> set ranks_down" "\<not> int i \<in> set [t]"
              then have i13: "i < 13" by (simp add: set_ranks_down)
              from inv q hp i13 i(2) have "c ! i \<noteq> 2" "c ! i \<noteq> 3" "c ! i \<noteq> 4"
                unfolding groups_inv_def by simp_all
              with i13 show "c ! i \<le> 1" by (rule low)
            qed
            have tt: "[t] = [int (nat t)]" using t by simp
            have "sum_list (map ((!) c) (filter (\<lambda>j. int j \<in> set [t]) ranks_down)) = 3"
              unfolding tt using sum_single [of "nat t" "(!) c"] t by simp
            with held_bound [OF others] total
            have "4 \<le> length (held_except c [t])"
              unfolding held_except_def by simp
            then have k: "0 < length (held_except c [t])" "1 < length (held_except c [t])"
              by linarith+
            from kicker_range [OF k(1)] t
            have "0 \<le> normalize_kicker (kicker_at (held_except c [t]) 0) t
                \<and> normalize_kicker (kicker_at (held_except c [t]) 0) t < 13"
              by (intro normalize_range) simp_all
            then obtain a where a: "nCk (normalize_kicker (kicker_at (held_except c [t]) 0) t) 2 = Some a"
              using nCk_some [of _ 2] by fastforce
            from kicker_range [OF k(2)] t
            have "0 \<le> normalize_kicker (kicker_at (held_except c [t]) 1) t
                \<and> normalize_kicker (kicker_at (held_except c [t]) 1) t < 13"
              by (intro normalize_range) simp_all
            then obtain b where b: "nCk (normalize_kicker (kicker_at (held_except c [t]) 1) t) 1 = Some b"
              using nCk_some [of _ 1] by fastforce
            from q fh None w True a b show ?thesis
              unfolding unfold by (simp add: Let_def)
          next
            case t: False
            show ?thesis
            proof (cases "hp \<noteq> -1")
              case True
              from inv True have hpr: "0 \<le> hp" "hp < 13" "c ! nat hp = 2 \<or> c ! nat hp = 3"
                unfolding groups_inv_def by simp_all
              show ?thesis
              proof (cases "lp \<noteq> -1")
                case lp: True
                with inv have lpr: "0 \<le> lp" "lp < 13"
                  unfolding groups_inv_def by simp_all
                obtain a where a: "nCk hp 2 = Some a"
                  using nCk_some [OF hpr(1,2), of 2] by auto
                obtain b where b: "nCk lp 1 = Some b"
                  using nCk_some [OF lpr, of 1] by auto
                from q fh None w t True lp a b show ?thesis
                  unfolding unfold by (simp add: Let_def)
              next
                case lp: False
                from inv t have no3: "\<And>i. i < 13 \<Longrightarrow> c ! i \<noteq> 3"
                  unfolding groups_inv_def by simp
                from hpr have "nat hp < 13" by simp
                with no3 hpr(3) have pair: "c ! nat hp = 2" by blast
                have others: "\<forall>i\<in>set ranks_down. \<not> int i \<in> set [hp] \<longrightarrow> c ! i \<le> 1"
                proof (intro ballI impI)
                  fix i assume i: "i \<in> set ranks_down" "\<not> int i \<in> set [hp]"
                  then have i13: "i < 13" by (simp add: set_ranks_down)
                  from inv q t lp i13 i(2) have "c ! i \<noteq> 2" "c ! i \<noteq> 4"
                    unfolding groups_inv_def by simp_all
                  with i13 no3 [OF i13] show "c ! i \<le> 1" by (intro low)
                qed
                have hh: "[hp] = [int (nat hp)]" using hpr by simp
                have "sum_list (map ((!) c) (filter (\<lambda>j. int j \<in> set [hp]) ranks_down)) = 2"
                  unfolding hh using sum_single [of "nat hp" "(!) c"] hpr pair by simp
                with held_bound [OF others] total
                have five: "5 \<le> length (held_except c [hp])"
                  unfolding held_except_def by simp
                define ks where "ks = map (\<lambda>i. normalize_kicker (int i) hp) (held_except c [hp])"
                have klen: "\<not> length ks < 3" using five by (simp add: ks_def)
                have kr: "0 \<le> ks ! n \<and> ks ! n < 13" if "n < 3" for n
                proof -
                  from that five have n: "n < length (held_except c [hp])" by simp
                  from held_members [OF n] hpr
                  have "0 \<le> normalize_kicker (int (held_except c [hp] ! n)) hp
                     \<and> normalize_kicker (int (held_except c [hp] ! n)) hp < 13"
                    by (intro normalize_range) simp_all
                  with n show ?thesis by (simp add: ks_def)
                qed
                obtain a where a: "nCk (ks ! 0) 3 = Some a"
                  using kr [of 0] nCk_some [of "ks ! 0" 3] by auto
                obtain b where b: "nCk (ks ! 1) 2 = Some b"
                  using kr [of 1] nCk_some [of "ks ! 1" 2] by auto
                obtain d where d: "nCk (ks ! 2) 1 = Some d"
                  using kr [of 2] nCk_some [of "ks ! 2" 1] by auto
                from q fh None w t True lp a b d klen show ?thesis
                  unfolding unfold ks_def [symmetric] by (simp add: Let_def)
              qed
            next
              case hp: False
              have others: "\<forall>i\<in>set ranks_down. \<not> int i \<in> set [] \<longrightarrow> c ! i \<le> 1"
              proof (intro ballI impI)
                fix i assume i: "i \<in> set ranks_down"
                then have i13: "i < 13" by (simp add: set_ranks_down)
                from inv q t hp i13 have "c ! i \<noteq> 2" "c ! i \<noteq> 3" "c ! i \<noteq> 4"
                  unfolding groups_inv_def by simp_all
                with i13 show "c ! i \<le> 1" by (rule low)
              qed
              from held_bound [OF others] total
              have seven: "7 \<le> length (held_except c [])"
                unfolding held_except_def by simp
              define ks where "ks = map int (held_except c [])"
              have klen: "\<not> length ks < 5" using seven by (simp add: ks_def)
              have kr: "0 \<le> ks ! n \<and> ks ! n < 13" if "n < 5" for n
              proof -
                from that seven have n: "n < length (held_except c [])" by simp
                from held_members [OF n] n show ?thesis by (simp add: ks_def)
              qed
              obtain a1 where a1: "nCk (ks ! 0) 5 = Some a1"
                using kr [of 0] nCk_some [of "ks ! 0" 5] by auto
              obtain a2 where a2: "nCk (ks ! 1) 4 = Some a2"
                using kr [of 1] nCk_some [of "ks ! 1" 4] by auto
              obtain a3 where a3: "nCk (ks ! 2) 3 = Some a3"
                using kr [of 2] nCk_some [of "ks ! 2" 3] by auto
              obtain a4 where a4: "nCk (ks ! 3) 2 = Some a4"
                using kr [of 3] nCk_some [of "ks ! 3" 2] by auto
              obtain a5 where a5: "nCk (ks ! 4) 1 = Some a5"
                using kr [of 4] nCk_some [of "ks ! 4" 1] by auto
              from q fh None w t hp a1 a2 a3 a4 a5 klen show ?thesis
                unfolding unfold ks_def [symmetric] by (simp add: Let_def)
            qed
          qed
        qed
      qed
    qed
  qed
qed

section \<open>Canonical keys\<close>

lemma suit_block:
  "\<exists>k\<le>4. concat (map (\<lambda>s. if has_card hand r s then [r] else []) [0, 1, 2, 3]) = replicate k r"
proof -
  have "concat (map (\<lambda>s. if has_card hand r s then [r] else []) [0, 1, 2, 3])
      = replicate (length (filter (has_card hand r) [0, 1, 2, 3])) r"
    by simp
  moreover have "length (filter (has_card hand r) [0, 1, 2, 3]) \<le> 4"
    using length_filter_le [of "has_card hand r" "[0, 1, 2, 3]"] by simp
  ultimately show ?thesis by blast
qed

lemma count_replicate: "count_list (replicate k x) x = k"
  by (induction k) simp_all

lemma blocks_sorted:
  assumes "\<And>r. \<exists>k\<le>4. f r = replicate k r"
  shows "sorted xs \<Longrightarrow> distinct xs \<Longrightarrow>
     sorted (concat (map f xs)) \<and> set (concat (map f xs)) \<subseteq> set xs
     \<and> (\<forall>r. count_list (concat (map f xs)) r \<le> 4)"
proof (induction xs)
  case Nil
  then show ?case by simp
next
  case (Cons x xs)
  from assms [of x] obtain k where k: "k \<le> 4" "f x = replicate k x" by blast
  from Cons have IH: "sorted (concat (map f xs))" "set (concat (map f xs)) \<subseteq> set xs"
      "\<And>r. count_list (concat (map f xs)) r \<le> 4"
    by simp_all
  from Cons.prems have x: "\<forall>y\<in>set xs. x \<le> y" "x \<notin> set xs" by simp_all
  have "sorted (replicate k x @ concat (map f xs))"
    using IH(1,2) x(1) by (auto simp: sorted_append)
  moreover have "set (replicate k x @ concat (map f xs)) \<subseteq> set (x # xs)"
    using IH(2) by auto
  moreover have "count_list (replicate k x @ concat (map f xs)) r \<le> 4" for r
  proof (cases "r = x")
    case True
    from x(2) IH(2) have "\<forall>y\<in>set (concat (map f xs)). y \<noteq> x" by blast
    then have "count_list (concat (map f xs)) x = 0" by (rule count_list_zero)
    with True k(1) show ?thesis by (simp add: count_replicate)
  next
    case False
    then have "count_list (replicate k x) r = 0"
      by (intro count_list_zero) auto
    with IH(3) [of r] show ?thesis by simp
  qed
  ultimately show ?case by (simp add: k(2))
qed

lemma ranks_up_upt: "ranks_up = [0..<13]"
  by (simp add: ranks_up_def upt_rec)

lemma hand_ranks_valid:
  assumes "length (hand_ranks hand) = 7"
  shows "valid_ranks (hand_ranks hand)"
proof -
  have "sorted ranks_up" "distinct ranks_up" "set ranks_up = {0..<13}"
    by (simp_all add: ranks_up_upt)
  with blocks_sorted [of "\<lambda>r. concat (map (\<lambda>s. if has_card hand r s then [r] else []) [0, 1, 2, 3])"
      ranks_up, OF suit_block]
  have "sorted (hand_ranks hand)" "set (hand_ranks hand) \<subseteq> {0..<13}"
      "\<forall>r. count_list (hand_ranks hand) r \<le> 4"
    unfolding hand_ranks_def by simp_all
  with assms show ?thesis
    unfolding valid_ranks_def by auto
qed

lemma suit_less: "c < 4 \<Longrightarrow> SUIT_PERMUTATION ! c < 4"
proof -
  assume "c < 4"
  then have "c = 0 \<or> c = 1 \<or> c = 2 \<or> c = 3" by arith
  then show ?thesis by (auto simp: SUIT_PERMUTATION_def)
qed

lemma suit_inj: "c < 4 \<Longrightarrow> j < 4 \<Longrightarrow> SUIT_PERMUTATION ! c = SUIT_PERMUTATION ! j \<longleftrightarrow> c = j"
proof -
  assume "c < 4" "j < 4"
  then have "c = 0 \<or> c = 1 \<or> c = 2 \<or> c = 3" "j = 0 \<or> j = 1 \<or> j = 2 \<or> j = 3" by arith+
  then show ?thesis by (auto simp: SUIT_PERMUTATION_def)
qed

lemma card_position:
  assumes "r < 13" "x < 13"
  shows "r + 16 * s = x + 16 * (s'::nat) \<longleftrightarrow> r = x \<and> s = s'"
proof
  assume e: "r + 16 * s = x + 16 * s'"
  then have "(r + 16 * s) mod 16 = (x + 16 * s') mod 16" by simp
  with assms have "r = x" by simp
  with e show "r = x \<and> s = s'" by simp
qed simp

lemma key_bits:
  assumes "\<forall>x\<in>set rs. x < 13" "\<forall>r. count_list rs r \<le> 4" "r < 13" "j < 4"
  shows "bit (key_of rs) (r + 16 * SUIT_PERMUTATION ! j) \<longleftrightarrow> j < count_list rs r"
  using assms(1,2)
proof (induction rs rule: rev_induct)
  case Nil
  show ?case by (simp add: key_of_def)
next
  case (snoc x rs)
  from snoc.prems have x: "x < 13" by simp
  have le: "count_list rs r' \<le> count_list (rs @ [x]) r'" for r' by simp
  from snoc.prems(2) have c4: "\<forall>r. count_list rs r \<le> 4"
    using le order_trans by blast
  from snoc.prems(1) have "\<forall>x\<in>set rs. x < 13" by simp
  from snoc.IH [OF this c4]
  have IH: "bit (key_of rs) (r + 16 * SUIT_PERMUTATION ! j) \<longleftrightarrow> j < count_list rs r" .
  have "count_list (rs @ [x]) x \<le> 4" using snoc.prems(2) by blast
  then have c: "count_list rs x < 4" by simp
  have pos: "r + 16 * SUIT_PERMUTATION ! j < 64"
    using suit_less [OF assms(4)] assms(3) by simp
  have "bit (key_of (rs @ [x])) (r + 16 * SUIT_PERMUTATION ! j)
      \<longleftrightarrow> bit (key_of rs) (r + 16 * SUIT_PERMUTATION ! j)
          \<or> r + 16 * SUIT_PERMUTATION ! j = x + 16 * SUIT_PERMUTATION ! count_list rs x"
    unfolding key_of_snoc [OF x] using pos
    by (auto simp: bit_or_iff bit_push_bit_iff bit_1_iff bit_exp_iff)
  also have "\<dots> \<longleftrightarrow> j < count_list rs r \<or> (r = x \<and> j = count_list rs x)"
    unfolding IH card_position [OF assms(3) x] using suit_inj [OF assms(4) c] by auto
  also have "\<dots> \<longleftrightarrow> j < count_list (rs @ [x]) r"
    by auto
  finally show ?case .
qed

lemma key_counts:
  assumes "\<forall>x\<in>set rs. x < 13" "\<forall>r. count_list rs r \<le> 4" "r < 13"
  shows "count_list rs r
       = length (filter (\<lambda>j. bit (key_of rs) (r + 16 * SUIT_PERMUTATION ! j)) [0..<4])"
proof -
  have "filter (\<lambda>j. bit (key_of rs) (r + 16 * SUIT_PERMUTATION ! j)) [0..<4]
      = filter (\<lambda>j. j < count_list rs r) [0..<4]"
    by (rule filter_cong) (simp_all add: key_bits [OF assms])
  also have "\<dots> = [0..<count_list rs r]"
  proof -
    have c: "count_list rs r \<le> 4" using assms(2) by blast
    have "[0..<4] = [0..<count_list rs r] @ [count_list rs r..<4]"
      using c upt_add_eq_append [of 0 "count_list rs r" "4 - count_list rs r"] by simp
    then have "filter (\<lambda>j. j < count_list rs r) [0..<4]
        = filter (\<lambda>j. j < count_list rs r) [0..<count_list rs r]
          @ filter (\<lambda>j. j < count_list rs r) [count_list rs r..<4]"
      by (simp only: filter_append)
    moreover have "filter (\<lambda>j. j < count_list rs r) [0..<count_list rs r] = [0..<count_list rs r]"
      by (rule filter_True) simp
    moreover have "filter (\<lambda>j. j < count_list rs r) [count_list rs r..<4] = []"
      by (rule filter_False) simp
    ultimately show ?thesis by (simp only: append_Nil2)
  qed
  finally show ?thesis by simp
qed

lemma key_of_nonzero:
  assumes "valid_ranks rs"
  shows "key_of rs \<noteq> 0"
proof
  assume z: "key_of rs = 0"
  from assms have v: "\<forall>x\<in>set rs. x < 13" "\<forall>r. count_list rs r \<le> 4" "length rs = 7"
    by (simp_all add: valid_ranks_def)
  from v(3) obtain x xs where rs: "rs = x # xs" by (cases rs) auto
  with v(1) have x: "x < 13" by simp
  have "0 < count_list rs x" by (simp add: rs)
  with key_bits [OF v(1,2) x, of 0] have "bit (key_of rs) (x + 16 * SUIT_PERMUTATION ! 0)"
    by simp
  with z show False by simp
qed

lemma sorted_counts_eq:
  "sorted a \<Longrightarrow> sorted b \<Longrightarrow> \<forall>r. count_list a r = count_list b r \<Longrightarrow> a = b"
proof (induction a arbitrary: b)
  case Nil
  show ?case
  proof (cases b)
    case (Cons y ys)
    with Nil(3) [rule_format, of y] show ?thesis by simp
  qed simp
next
  case (Cons x xs)
  from Cons.prems(3) [rule_format, of x] obtain y ys where b: "b = y # ys"
    by (cases b) auto
  have "count_list b x \<noteq> 0" using Cons.prems(3) [rule_format, of x] by simp
  then have "x \<in> set b" by (simp only: count_list_0_iff) simp
  with Cons.prems(2) have yx: "y \<le> x" by (auto simp: b)
  have "count_list (x # xs) y \<noteq> 0" using Cons.prems(3) [rule_format, of y] by (simp add: b)
  then have "y \<in> set (x # xs)" by (simp only: count_list_0_iff) simp
  with Cons.prems(1) have "x \<le> y" by auto
  with yx have xy: "x = y" by simp
  have "\<forall>r. count_list xs r = count_list ys r"
    using Cons.prems(3) by (auto simp: b xy split: if_splits)
  moreover from Cons.prems(1,2) have "sorted xs" "sorted ys" by (simp_all add: b)
  ultimately have "xs = ys" using Cons.IH by blast
  with xy b show ?case by simp
qed

lemma key_of_inj:
  assumes "valid_ranks a" "valid_ranks b" "key_of a = key_of b"
  shows "a = b"
proof -
  from assms(1) have a: "\<forall>x\<in>set a. x < 13" "\<forall>r. count_list a r \<le> 4" "sorted a"
    by (simp_all add: valid_ranks_def)
  from assms(2) have b: "\<forall>x\<in>set b. x < 13" "\<forall>r. count_list b r \<le> 4" "sorted b"
    by (simp_all add: valid_ranks_def)
  have "count_list a r = count_list b r" for r
  proof (cases "r < 13")
    case True
    from key_counts [OF a(1,2) True] key_counts [OF b(1,2) True] assms(3)
    show ?thesis by simp
  next
    case False
    with a(1) have "\<forall>x\<in>set a. x \<noteq> r" by auto
    then have "count_list a r = 0" by (rule count_list_zero)
    moreover from False b(1) have "\<forall>x\<in>set b. x \<noteq> r" by auto
    then have "count_list b r = 0" by (rule count_list_zero)
    ultimately show ?thesis by simp
  qed
  then show ?thesis
    using sorted_counts_eq [OF a(3) b(3)] by blast
qed

lemma insert_all_inv:
  assumes "probe_inv (rank_keys T) K" "finite K" "length (rank_map T) = 65536"
    and "card K + length L < 65536"
    and "\<forall>rs\<in>set L. key_of rs \<noteq> 0 \<and> (\<exists>v. calculate_rank_strength rs = Some v)"
  shows "\<exists>T'. insert_all L T = Some T' \<and> probe_inv (rank_keys T') (K \<union> key_of ` set L)
           \<and> length (rank_map T') = 65536 \<and> flush_map T' = flush_map T"
  using assms
proof (induction L arbitrary: T K)
  case Nil
  then show ?case by simp
next
  case (Cons rs L)
  from Cons.prems(5) obtain v where nz: "key_of rs \<noteq> 0" and v: "calculate_rank_strength rs = Some v"
    by auto
  from Cons.prems(5) have rest: "\<forall>rs\<in>set L. key_of rs \<noteq> 0 \<and> (\<exists>v. calculate_rank_strength rs = Some v)"
    by simp
  show ?case
  proof (cases "key_of rs \<in> K")
    case True
    have same: "insert_rank (key_of rs) rs T = Some T"
      by (rule insert_rank_old [OF Cons.prems(1,3) True])
    from Cons.prems(4) have "card K + length L < 65536" by simp
    from Cons.IH [OF Cons.prems(1,2,3) this rest]
    obtain T' where T': "insert_all L T = Some T'" "probe_inv (rank_keys T') (K \<union> key_of ` set L)"
        "length (rank_map T') = 65536" "flush_map T' = flush_map T"
      by blast
    from True have "K \<union> key_of ` set (rs # L) = K \<union> key_of ` set L" by auto
    with T' same show ?thesis by simp
  next
    case False
    from Cons.prems(4) have card: "card K < 65536" by simp
    from insert_rank_new [OF Cons.prems(1,2) card Cons.prems(3) nz False v]
    obtain T1 where T1: "insert_rank (key_of rs) rs T = Some T1"
        "probe_inv (rank_keys T1) (insert (key_of rs) K)"
        "length (rank_map T1) = 65536" "flush_map T1 = flush_map T"
      by blast
    have fin: "finite (insert (key_of rs) K)" using Cons.prems(2) by simp
    have "card (insert (key_of rs) K) + length L < 65536"
      using Cons.prems(2,4) False by simp
    from Cons.IH [OF T1(2) fin T1(3) this rest]
    obtain T' where T': "insert_all L T1 = Some T'"
        "probe_inv (rank_keys T') (insert (key_of rs) K \<union> key_of ` set L)"
        "length (rank_map T') = 65536" "flush_map T' = flush_map T1"
      by blast
    have "K \<union> key_of ` set (rs # L) = insert (key_of rs) K \<union> key_of ` set L" by auto
    with T' T1 show ?thesis by simp
  qed
qed

lemma empty_table_inv: "probe_inv (replicate 65536 0) {}"
  by (simp add: probe_inv_def)

lemma init_rank_map_inv:
  assumes "length rank_storage = 7"
  shows "\<exists>T'. init_rank_map rank_storage T = Some T' \<and> probe_inv (rank_keys T') rank_key_set
           \<and> length (rank_map T') = 65536 \<and> flush_map T' = flush_map T"
proof -
  let ?T0 = "T\<lparr>rank_map := replicate 65536 0, rank_keys := replicate 65536 0\<rparr>"
  have leaves: "set (leaves 0 0 []) = {rs. valid_ranks rs}"
    by (auto simp: valid_ranks_leaves)
  have "\<forall>rs\<in>set (leaves 0 0 []). key_of rs \<noteq> 0 \<and> (\<exists>v. calculate_rank_strength rs = Some v)"
  proof
    fix rs assume "rs \<in> set (leaves 0 0 [])"
    then have v: "valid_ranks rs" by (simp add: leaves)
    then have "\<exists>v. calculate_rank_strength rs = Some v"
      by (intro calculate_rank_strength_total) (simp_all add: valid_ranks_def)
    with key_of_nonzero [OF v] show "key_of rs \<noteq> 0 \<and> (\<exists>v. calculate_rank_strength rs = Some v)"
      by simp
  qed
  moreover have "probe_inv (rank_keys ?T0) {}" by (simp add: empty_table_inv)
  moreover have "card ({} :: 64 word set) + length (leaves 0 0 []) < 65536"
    by (simp add: leaves_total)
  ultimately obtain T' where T': "insert_all (leaves 0 0 []) ?T0 = Some T'"
      "probe_inv (rank_keys T') ({} \<union> key_of ` set (leaves 0 0 []))"
      "length (rank_map T') = 65536" "flush_map T' = flush_map ?T0"
    using insert_all_inv [of ?T0 "{}" "leaves 0 0 []"] by auto
  have "agrees 0 rank_storage (generate_ranks_recursive 0 0 0 (rank_storage, ?T0))
      (insert_all (leaves 0 0 (take 0 (fst (rank_storage, ?T0)))) (snd (rank_storage, ?T0)))"
    using gen_link(1) [of "(rank_storage, ?T0)" 0 0 0] assms by (simp add: key_of_def)
  then obtain cr' where "generate_ranks_recursive 0 0 0 (rank_storage, ?T0) = Some (cr', T')"
    using T'(1) by (auto simp: agrees_def)
  then have "init_rank_map rank_storage T = Some T'"
    by (simp add: init_rank_map_def)
  with T' show ?thesis
    by (simp add: rank_key_set_def leaves)
qed

section \<open>The rank map after \<open>init_rank_map\<close>\<close>

lemma card_rank_key_set: "card rank_key_set = 49205"
proof -
  have "inj_on key_of {rs. valid_ranks rs}"
    by (rule inj_onI) (simp add: key_of_inj)
  then show ?thesis
    unfolding rank_key_set_def by (simp add: card_image card_valid_ranks)
qed

lemma occupied_slots:
  assumes "probe_inv keys K"
  shows "length (filter (\<lambda>k. k \<noteq> 0) keys) = card K"
proof -
  let ?I = "{i. i < 65536 \<and> keys ! i \<noteq> 0}"
  from assms have len: "length keys = 65536" by (simp add: probe_inv_def)
  from assms have in_K: "\<forall>i<65536. keys ! i \<noteq> 0 \<longrightarrow> keys ! i \<in> K"
    and stored: "\<forall>k\<in>K. \<exists>d. stored_at keys k d" and nz: "0 \<notin> K"
    and inj: "\<forall>i<65536. \<forall>j<65536. keys ! i = keys ! j \<and> keys ! i \<noteq> 0 \<longrightarrow> i = j"
    unfolding probe_inv_def by blast+
  have img: "(\<lambda>i. keys ! i) ` ?I = K"
  proof (intro equalityI subsetI)
    fix k assume "k \<in> (\<lambda>i. keys ! i) ` ?I"
    then obtain i where "i < 65536" "keys ! i \<noteq> 0" "k = keys ! i" by blast
    with in_K show "k \<in> K" by simp
  next
    fix k assume k: "k \<in> K"
    with stored obtain d where d: "stored_at keys k d" by blast
    from k nz have k0: "k \<noteq> 0" by blast
    let ?u = "unat (get_rank_hash k + of_nat d)"
    from d have e: "keys ! ?u = k" by (simp add: stored_at_def)
    have "?u < 65536" by simp
    with e k0 have "?u \<in> ?I" by simp
    then have "keys ! ?u \<in> (\<lambda>i. keys ! i) ` ?I" by (rule imageI)
    then show "k \<in> (\<lambda>i. keys ! i) ` ?I" by (simp only: e)
  qed
  have "inj_on (\<lambda>i. keys ! i) ?I"
  proof (rule inj_onI)
    fix i j assume "i \<in> ?I" "j \<in> ?I" "keys ! i = keys ! j"
    then have "i < 65536" "j < 65536" "keys ! i = keys ! j \<and> keys ! i \<noteq> 0" by simp_all
    with inj show "i = j" by blast
  qed
  then have "card ((\<lambda>i. keys ! i) ` ?I) = card ?I" by (rule card_image)
  then have "card K = card ?I" by (simp only: img)
  then show ?thesis by (simp add: length_filter_conv_card len)
qed

lemma slot_rehash:
  assumes "probe_inv keys K" "i < 65536" "keys ! i \<noteq> 0"
  shows "probe keys (keys ! i) (get_rank_hash (keys ! i)) = Some (of_nat i)"
proof -
  from assms(1) have in_K: "\<forall>i<65536. keys ! i \<noteq> 0 \<longrightarrow> keys ! i \<in> K"
    and stored: "\<forall>k\<in>K. \<exists>d. stored_at keys k d"
    and inj: "\<forall>i<65536. \<forall>j<65536. keys ! i = keys ! j \<and> keys ! i \<noteq> 0 \<longrightarrow> i = j"
    unfolding probe_inv_def by blast+
  from in_K assms(2,3) have "keys ! i \<in> K" by simp
  with stored obtain d where d: "stored_at keys (keys ! i) d" by blast
  let ?idx = "get_rank_hash (keys ! i) + of_nat d"
  from d have e: "keys ! unat ?idx = keys ! i" by (simp add: stored_at_def)
  have u: "unat ?idx < 65536" by simp
  from inj [rule_format, OF u assms(2)] e assms(3) have "unat ?idx = i" by simp
  then have "of_nat (unat ?idx) = (of_nat i :: 16 word)" by (simp only:)
  then have "?idx = of_nat i" by simp
  with probe_stored [OF d] show ?thesis by simp
qed

lemma canonical_key:
  assumes "length (hand_ranks h) = 7"
  shows "canonicalize_hand h = Some (key_of (hand_ranks h))"
    and "key_of (hand_ranks h) \<in> rank_key_set"
  using assms hand_ranks_valid [OF assms]
  by (simp_all add: canonicalize_hand_def key_of_def rank_key_set_def)

text \<open>
  A hand without a flush: hole cards As Ah, board 2s 7h 9d Kd Kc. Its canonical form
  is \<open>0x18A11800\<close>.
\<close>

lemma sample_combined: "combine_hand_board 0x10001000 0x800088000200001 = 0x800088010201001"
  by (simp add: combine_hand_board_def)

lemma sample_hand_ranks:
  "hand_ranks 0x800088010201001 = [0, 5, 7, 11, 11, 12, 12]"
  apply (simp only: hand_ranks_def ranks_up_def list.map)
  apply (simp add: has_card_def)
  done

lemma sample_no_flush: "get_flush_map_index 0x800088010201001 = 0"
  by (simp add: get_flush_map_index_def)

lemma sample_canonical: "canonicalize_hand 0x800088010201001 = Some 0x18A11800"
  unfolding canonicalize_hand_def sample_hand_ranks
  by (simp add: canonicalize_step_def SUIT_PERMUTATION_def)

text \<open>
  C4. \<open>init_rank_map\<close> returns, whatever the tables and the local array held before, and
  afterwards, for every hand and board that together hold exactly seven cards with no suit
  holding five or more, the probe of \<open>evaluate\<close> from the hash of the canonical form
  terminates at a slot whose key is that canonical form, which is not zero: \<open>evaluate\<close>
  returns the strength stored at that slot and never the content of an empty slot.
\<close>

theorem rank_lookup_hits:
  assumes "length rank_storage = 7"
  shows "\<exists>T. init_rank_map rank_storage T0 = Some T \<and>
     (\<forall>hand board.
        length (hand_ranks (combine_hand_board hand board)) = 7
          \<and> get_flush_map_index (combine_hand_board hand board) = 0 \<longrightarrow>
        (\<exists>canonical idx.
           canonicalize_hand (combine_hand_board hand board) = Some canonical
           \<and> probe (rank_keys T) canonical (get_rank_hash canonical) = Some idx
           \<and> rank_keys T ! unat idx = canonical \<and> canonical \<noteq> 0
           \<and> evaluate T hand board = Some (rank_map T ! unat idx)))"
proof -
  from init_rank_map_inv [OF assms, of T0]
  obtain T where T: "init_rank_map rank_storage T0 = Some T"
      "probe_inv (rank_keys T) rank_key_set" "length (rank_map T) = 65536"
    by blast
  from T(2) have klen: "length (rank_keys T) = 65536" by (simp add: probe_inv_def)
  have "\<exists>canonical idx.
           canonicalize_hand (combine_hand_board hand board) = Some canonical
           \<and> probe (rank_keys T) canonical (get_rank_hash canonical) = Some idx
           \<and> rank_keys T ! unat idx = canonical \<and> canonical \<noteq> 0
           \<and> evaluate T hand board = Some (rank_map T ! unat idx)"
    if seven: "length (hand_ranks (combine_hand_board hand board)) = 7"
      and noflush: "get_flush_map_index (combine_hand_board hand board) = 0"
    for hand board
  proof -
    let ?k = "key_of (hand_ranks (combine_hand_board hand board))"
    note ck = canonical_key [OF seven]
    from T(2) have stored: "\<forall>k\<in>rank_key_set. \<exists>d. stored_at (rank_keys T) k d"
      and nzK: "0 \<notin> rank_key_set"
      unfolding probe_inv_def by blast+
    from stored ck(2) obtain d where d: "stored_at (rank_keys T) ?k d" by blast
    from nzK ck(2) have nz: "?k \<noteq> 0" by metis
    let ?idx = "get_rank_hash ?k + of_nat d"
    have p: "probe (rank_keys T) ?k (get_rank_hash ?k) = Some ?idx"
      by (rule probe_stored [OF d])
    have s: "rank_keys T ! unat ?idx = ?k"
      using d by (simp add: stored_at_def)
    have "evaluate T hand board = Some (rank_map T ! unat ?idx)"
      unfolding evaluate_def Let_def noflush ck(1) using klen T(3) p by simp
    with ck(1) p s nz show ?thesis by blast
  qed
  with T(1) show ?thesis by blast
qed

theorem rank_lookup_hits_witness:
  "\<exists>T idx. init_rank_map [0, 0, 0, 0, 0, 0, 0] flush_tables = Some T
     \<and> probe (rank_keys T) 0x18A11800 (get_rank_hash 0x18A11800) = Some idx
     \<and> rank_keys T ! unat idx = 0x18A11800
     \<and> evaluate T 0x10001000 0x800088000200001 = Some (rank_map T ! unat idx)"
proof -
  have len: "length [0, 0, 0, 0, 0, 0, 0 :: nat] = 7" by simp
  from rank_lookup_hits [OF len, of flush_tables]
  obtain T where T: "init_rank_map [0, 0, 0, 0, 0, 0, 0] flush_tables = Some T"
    and hits: "\<forall>hand board. length (hand_ranks (combine_hand_board hand board)) = 7
          \<and> get_flush_map_index (combine_hand_board hand board) = 0 \<longrightarrow>
        (\<exists>canonical idx.
           canonicalize_hand (combine_hand_board hand board) = Some canonical
           \<and> probe (rank_keys T) canonical (get_rank_hash canonical) = Some idx
           \<and> rank_keys T ! unat idx = canonical \<and> canonical \<noteq> 0
           \<and> evaluate T hand board = Some (rank_map T ! unat idx))"
    by (elim exE conjE)
  have "length (hand_ranks (combine_hand_board 0x10001000 0x800088000200001)) = 7
      \<and> get_flush_map_index (combine_hand_board 0x10001000 0x800088000200001) = 0"
    unfolding sample_combined sample_hand_ranks sample_no_flush by simp
  from hits [rule_format, of "0x10001000" "0x800088000200001", OF this]
  obtain canonical idx where c:
    "canonicalize_hand (combine_hand_board 0x10001000 0x800088000200001) = Some canonical"
    "probe (rank_keys T) canonical (get_rank_hash canonical) = Some idx"
    "rank_keys T ! unat idx = canonical"
    "evaluate T 0x10001000 0x800088000200001 = Some (rank_map T ! unat idx)"
    by (elim exE conjE)
  from c(1) have "canonical = 0x18A11800"
    unfolding sample_combined sample_canonical by simp
  with T c(2-4) show ?thesis by (intro exI [of _ T] exI [of _ idx]) simp
qed

lemma sample_valid: "valid_ranks [0, 5, 7, 11, 11, 12, 12]"
  by (simp add: valid_ranks_def)

lemma sample_key: "key_of [0, 5, 7, 11, 11, 12, 12] = 0x18A11800"
  by (simp add: key_of_def canonicalize_step_def SUIT_PERMUTATION_def)

text \<open>
  C5. After \<open>init_rank_map\<close> exactly 49205 of the 65536 slots of \<open>rank_keys\<close> are
  non-empty: every seven-card rank list with no rank more than four times has its key in
  exactly one slot, every non-empty slot holds the key of exactly one such list, and the
  probe from the hash of the key of a non-empty slot ends at that slot.
\<close>

theorem rank_map_complete:
  assumes "length rank_storage = 7"
  shows "\<exists>T. init_rank_map rank_storage T0 = Some T
     \<and> length (rank_keys T) = 65536
     \<and> length (filter (\<lambda>k. k \<noteq> 0) (rank_keys T)) = 49205
     \<and> (\<forall>rs. valid_ranks rs \<longrightarrow> (\<exists>!i. i < 65536 \<and> rank_keys T ! i = key_of rs))
     \<and> (\<forall>i<65536. rank_keys T ! i \<noteq> 0 \<longrightarrow>
          (\<exists>!rs. valid_ranks rs \<and> key_of rs = rank_keys T ! i)
          \<and> probe (rank_keys T) (rank_keys T ! i) (get_rank_hash (rank_keys T ! i))
            = Some (of_nat i))"
proof -
  from init_rank_map_inv [OF assms, of T0]
  obtain T where T: "init_rank_map rank_storage T0 = Some T"
      "probe_inv (rank_keys T) rank_key_set"
    by blast
  from T(2) have in_K: "\<forall>i<65536. rank_keys T ! i \<noteq> 0 \<longrightarrow> rank_keys T ! i \<in> rank_key_set"
    and stored: "\<forall>k\<in>rank_key_set. \<exists>d. stored_at (rank_keys T) k d"
    and inj: "\<forall>i<65536. \<forall>j<65536.
        rank_keys T ! i = rank_keys T ! j \<and> rank_keys T ! i \<noteq> 0 \<longrightarrow> i = j"
    and klen: "length (rank_keys T) = 65536"
    unfolding probe_inv_def by blast+
  have count: "length (filter (\<lambda>k. k \<noteq> 0) (rank_keys T)) = 49205"
    using occupied_slots [OF T(2)] by (simp add: card_rank_key_set)
  have slot: "\<exists>!i. i < 65536 \<and> rank_keys T ! i = key_of rs" if v: "valid_ranks rs" for rs
  proof -
    from v have "key_of rs \<in> rank_key_set" by (simp add: rank_key_set_def)
    with stored obtain d where d: "stored_at (rank_keys T) (key_of rs) d" by blast
    let ?u = "unat (get_rank_hash (key_of rs) + of_nat d)"
    from d have e: "rank_keys T ! ?u = key_of rs" by (simp add: stored_at_def)
    have u: "?u < 65536" by simp
    show ?thesis
    proof (rule ex1I [of _ ?u])
      show "?u < 65536 \<and> rank_keys T ! ?u = key_of rs" using u e by simp
    next
      fix i assume i: "i < 65536 \<and> rank_keys T ! i = key_of rs"
      then have i1: "i < 65536" by simp
      from i e key_of_nonzero [OF v]
      have c: "rank_keys T ! i = rank_keys T ! ?u \<and> rank_keys T ! i \<noteq> 0" by simp
      show "i = ?u" by (rule inj [rule_format, OF i1 u c])
    qed
  qed
  have owner: "(\<exists>!rs. valid_ranks rs \<and> key_of rs = rank_keys T ! i)
      \<and> probe (rank_keys T) (rank_keys T ! i) (get_rank_hash (rank_keys T ! i)) = Some (of_nat i)"
    if i: "i < 65536" "rank_keys T ! i \<noteq> 0" for i
  proof
    from in_K i have "rank_keys T ! i \<in> rank_key_set" by simp
    then have "\<exists>rs\<in>{rs. valid_ranks rs}. rank_keys T ! i = key_of rs"
      unfolding rank_key_set_def image_iff .
    then obtain rs where rs: "valid_ranks rs" "key_of rs = rank_keys T ! i"
      by auto
    show "\<exists>!rs. valid_ranks rs \<and> key_of rs = rank_keys T ! i"
    proof (rule ex1I [of _ rs])
      show "valid_ranks rs \<and> key_of rs = rank_keys T ! i" using rs by simp
    next
      fix rs' assume "valid_ranks rs' \<and> key_of rs' = rank_keys T ! i"
      with rs show "rs' = rs" by (intro key_of_inj) simp_all
    qed
  next
    show "probe (rank_keys T) (rank_keys T ! i) (get_rank_hash (rank_keys T ! i)) = Some (of_nat i)"
      by (rule slot_rehash [OF T(2) i])
  qed
  from T(1) klen count slot owner show ?thesis by blast
qed

theorem rank_map_complete_witness:
  "\<exists>T i. init_rank_map [0, 0, 0, 0, 0, 0, 0] flush_tables = Some T
     \<and> length (filter (\<lambda>k. k \<noteq> 0) (rank_keys T)) = 49205
     \<and> i < 65536 \<and> rank_keys T ! i = 0x18A11800
     \<and> probe (rank_keys T) 0x18A11800 (get_rank_hash 0x18A11800) = Some (of_nat i)"
proof -
  have len: "length [0, 0, 0, 0, 0, 0, 0 :: nat] = 7" by simp
  from rank_map_complete [OF len, of flush_tables]
  obtain T where T: "init_rank_map [0, 0, 0, 0, 0, 0, 0] flush_tables = Some T"
    and n: "length (filter (\<lambda>k. k \<noteq> 0) (rank_keys T)) = 49205"
    and slot: "\<forall>rs. valid_ranks rs \<longrightarrow> (\<exists>!i. i < 65536 \<and> rank_keys T ! i = key_of rs)"
    and re: "\<forall>i<65536. rank_keys T ! i \<noteq> 0 \<longrightarrow>
          (\<exists>!rs. valid_ranks rs \<and> key_of rs = rank_keys T ! i)
          \<and> probe (rank_keys T) (rank_keys T ! i) (get_rank_hash (rank_keys T ! i))
            = Some (of_nat i)"
    by (elim exE conjE)
  from slot [rule_format, OF sample_valid]
  obtain i where i: "i < 65536" "rank_keys T ! i = 0x18A11800"
    unfolding sample_key by blast
  then have "rank_keys T ! i \<noteq> 0" by simp
  with re [rule_format, OF i(1)]
  have "probe (rank_keys T) (rank_keys T ! i) (get_rank_hash (rank_keys T ! i)) = Some (of_nat i)"
    by simp
  then have "probe (rank_keys T) 0x18A11800 (get_rank_hash 0x18A11800) = Some (of_nat i)"
    by (simp only: i(2))
  with T n i show ?thesis by (intro exI [of _ T] exI [of _ i]) simp
qed

end
